theory Spec2Isabelle
  imports Complex_Main "HOL-Library.Word" "HOL-Library.List_Lexorder"
begin

section \<open>Shared conventions\<close>

text \<open>
  The development embeds the rate accounting and request intake of
  \<^verbatim>\<open>GrvProxyServer.actor.cpp\<close> and the resolution, gating and reply code of
  \<^verbatim>\<open>CommitProxyServer.actor.cpp\<close>.

  \<^item> A C++ \<^verbatim>\<open>double\<close> is read as a \<^typ>\<open>real\<close>: rounding, infinities and NaN are
    not represented. The properties below rest on the comparisons made by
    \<^verbatim>\<open>std::max\<close> and \<^verbatim>\<open>std::min\<close> only.
  \<^item> \<^verbatim>\<open>int64_t\<close> counters and versions are read as \<^typ>\<open>int\<close>; signed overflow is
    undefined in C++ and no execution modelled here comes near it.
  \<^item> The \<^verbatim>\<open>int\<close> locals of the batch loop of the GRV proxy are 32-bit words: a
    \<^verbatim>\<open>uint32_t\<close> stored into one keeps its low 32 bits, additions wrap, and the value
    read is the two's-complement one (\<open>sint\<close>).
  \<^item> A failed \<^verbatim>\<open>ASSERT\<close>, a thrown error and an out-of-range container access are
    values of the type \<open>Error\<close>, returned on the left of a sum.
  \<^item> Tracing (\<^verbatim>\<open>TraceEvent\<close>, \<^verbatim>\<open>g_traceBatch\<close>, spans) and latency sampling have no
    effect on the values studied and are left out.
  \<^item> \<^verbatim>\<open>SERVER_KNOBS\<close> is declared outside the sources at hand; the knobs that the
    embedded code reads are fields of the record \<open>ServerKnobs\<close>, passed as a parameter.
\<close>

datatype Error =
    assertion_failed
  | undefined_behaviour
  | worker_removed
  | batch_transaction_throttled
  | proxy_memory_limit_exceeded
  | transaction_too_old
  | not_committed

record ServerKnobs =
  START_TRANSACTION_RATE_WINDOW :: real
  START_TRANSACTION_MAX_TRANSACTIONS_TO_START :: real
  START_TRANSACTION_MAX_EMPTY_QUEUE_BUDGET :: real
  START_TRANSACTION_MAX_QUEUE_SIZE :: int
  START_TRANSACTION_MAX_REQUESTS_TO_START :: int
  MAX_READ_TRANSACTION_LIFE_VERSIONS :: int

section \<open>GRV proxy: rate accounting\<close>

text \<open>
  \<^verbatim>\<open>Smoother\<close> (flow/Smoother.h) is not among the sources. Its state is the type
  parameter \<open>'s\<close> and the member functions that \<^verbatim>\<open>GrvTransactionRateInfo\<close> calls
  are the fields of \<open>SmootherOps\<close>; each takes the time \<open>t\<close> that the C++ default
  argument \<^verbatim>\<open>now()\<close> supplies. The two queries return the value read and the
  smoother after the query, since they may refresh it.
\<close>

record 's SmootherOps =
  smoother_reset :: "real \<Rightarrow> 's \<Rightarrow> 's"
  smoother_setTotal :: "real \<Rightarrow> real \<Rightarrow> 's \<Rightarrow> 's"
  smoother_addDelta :: "real \<Rightarrow> real \<Rightarrow> 's \<Rightarrow> 's"
  smoother_smoothTotal :: "real \<Rightarrow> 's \<Rightarrow> real \<times> 's"
  smoother_smoothRate :: "real \<Rightarrow> 's \<Rightarrow> real \<times> 's"

record 's GrvTransactionRateInfo =
  rate :: real
  limit :: real
  budget :: real
  disabled :: bool
  smoothRate :: 's
  smoothReleased :: 's

text \<open>The constructor; \<open>fresh\<close> is a smoother as \<^verbatim>\<open>Smoother(window)\<close> builds it.\<close>

definition GrvTransactionRateInfo_init :: "'s \<Rightarrow> real \<Rightarrow> 's GrvTransactionRateInfo" where
  "GrvTransactionRateInfo_init fresh r =
     \<lparr>rate = r, limit = 0, budget = 0, disabled = True, smoothRate = fresh, smoothReleased = fresh\<rparr>"

definition reset :: "'s SmootherOps \<Rightarrow> ServerKnobs \<Rightarrow> real \<Rightarrow> 's GrvTransactionRateInfo
    \<Rightarrow> 's GrvTransactionRateInfo" where
  "reset ops K t st =
     (let (total, sr) = smoother_smoothTotal ops t (smoothRate st);
          (released, sl) = smoother_smoothRate ops t (smoothReleased st);
          releaseRate = total - released
      in st\<lparr>limit := START_TRANSACTION_RATE_WINDOW K * releaseRate,
             smoothRate := sr, smoothReleased := sl\<rparr>)"

definition canStart :: "ServerKnobs \<Rightarrow> 's GrvTransactionRateInfo \<Rightarrow> int \<Rightarrow> int \<Rightarrow> bool" where
  "canStart K st numAlreadyStarted count =
     (real_of_int (numAlreadyStarted + count)
        \<le> min (limit st + budget st) (START_TRANSACTION_MAX_TRANSACTIONS_TO_START K))"

definition updateBudget :: "'s SmootherOps \<Rightarrow> ServerKnobs \<Rightarrow> real \<Rightarrow> int \<Rightarrow> bool \<Rightarrow> real
    \<Rightarrow> 's GrvTransactionRateInfo \<Rightarrow> 's GrvTransactionRateInfo" where
  "updateBudget ops K t numStartedAtPriority queueEmptyAtPriority elapsed st =
     (let b1 = max 0 (budget st + elapsed * (limit st - real_of_int numStartedAtPriority)
                                    / START_TRANSACTION_RATE_WINDOW K);
          b2 = (if queueEmptyAtPriority
                then min b1 (START_TRANSACTION_MAX_EMPTY_QUEUE_BUDGET K) else b1)
      in st\<lparr>budget := b2,
             smoothReleased :=
               smoother_addDelta ops (real_of_int numStartedAtPriority) t (smoothReleased st)\<rparr>)"

definition disable :: "'s SmootherOps \<Rightarrow> 's GrvTransactionRateInfo \<Rightarrow> 's GrvTransactionRateInfo" where
  "disable ops st =
     st\<lparr>disabled := True, rate := 0, smoothRate := smoother_reset ops 0 (smoothRate st)\<rparr>"

text \<open>
  \<^verbatim>\<open>setRate\<close> asserts that the new rate is non-negative, finite and a number; over
  the reals only the first conjunct remains.
\<close>

definition setRate :: "'s SmootherOps \<Rightarrow> real \<Rightarrow> real \<Rightarrow> 's GrvTransactionRateInfo
    \<Rightarrow> Error + 's GrvTransactionRateInfo" where
  "setRate ops t r st =
     (if \<not> (r \<ge> 0) then Inl assertion_failed
      else if disabled st
        then Inr (st\<lparr>rate := r, smoothRate := smoother_reset ops r (smoothRate st),
                       disabled := False\<rparr>)
        else Inr (st\<lparr>rate := r, smoothRate := smoother_setTotal ops r t (smoothRate st)\<rparr>))"

text \<open>Knob values used in the concrete evaluations below.\<close>

definition exampleKnobs :: ServerKnobs where
  "exampleKnobs =
     \<lparr>START_TRANSACTION_RATE_WINDOW = 2,
      START_TRANSACTION_MAX_TRANSACTIONS_TO_START = 100000,
      START_TRANSACTION_MAX_EMPTY_QUEUE_BUDGET = 10,
      START_TRANSACTION_MAX_QUEUE_SIZE = 1000000,
      START_TRANSACTION_MAX_REQUESTS_TO_START = 10000,
      MAX_READ_TRANSACTION_LIFE_VERSIONS = 5000000\<rparr>"


text \<open>
  A smoother at rest (its estimate has caught up with its total): the smoothed total is
  the stored total and the smoothed rate of change is zero. Used for concrete runs.
\<close>

definition steadySmoother :: "real SmootherOps" where
  "steadySmoother =
     \<lparr>smoother_reset = (\<lambda>v s. v), smoother_setTotal = (\<lambda>v t s. v),
      smoother_addDelta = (\<lambda>d t s. s + d), smoother_smoothTotal = (\<lambda>t s. (s, s)),
      smoother_smoothRate = (\<lambda>t s. (0, s))\<rparr>"

section \<open>GRV proxy: the batch loop of \<^verbatim>\<open>transactionStarter\<close>\<close>

text \<open>
  \<^verbatim>\<open>TransactionPriority\<close> is declared outside the sources at hand; the code compares
  priorities with \<^verbatim>\<open>>=\<close> and \<^verbatim>\<open><\<close>, so the three priorities the spec names carry
  their rank.
\<close>

datatype TransactionPriority = BATCH | DEFAULT | IMMEDIATE

fun priority_rank :: "TransactionPriority \<Rightarrow> nat" where
  "priority_rank BATCH = 0"
| "priority_rank DEFAULT = 1"
| "priority_rank IMMEDIATE = 2"

text \<open>Of a request the fields that the embedded code reads; \<^verbatim>\<open>transactionCount\<close> and
  \<^verbatim>\<open>flags\<close> are \<^verbatim>\<open>uint32_t\<close>, natural numbers below \<open>2^32\<close>.\<close>

record GetReadVersionRequest =
  priority :: TransactionPriority
  transactionCount :: nat
  flags :: nat
  tags :: "(string \<times> nat) list"

text \<open>
  The three queues, and the locals of one firing of the timer. The two-element \<^verbatim>\<open>int\<close> arrays indexed by
  \<^verbatim>\<open>req.flags & 1\<close> are pairs of 32-bit words. \<^verbatim>\<open>req.transactionCount\<close> is a \<^verbatim>\<open>uint32_t\<close>;
  \<^verbatim>\<open>int tc = req.transactionCount\<close> keeps its 32 bits and reads them as a signed number,
  so that a count from \<open>2^31\<close> on is a negative \<open>tc\<close>. \<^verbatim>\<open>requestsToStart\<close> stays below
  the \<^verbatim>\<open>int\<close> knob it is compared with and cannot wrap.
\<close>

record GrvQueues =
  systemQueue :: "GetReadVersionRequest list"
  defaultQueue :: "GetReadVersionRequest list"
  batchQueue :: "GetReadVersionRequest list"

record StarterLocals = GrvQueues +
  transactionsStarted :: "32 word \<times> 32 word"
  systemTransactionsStarted :: "32 word \<times> 32 word"
  defaultPriTransactionsStarted :: "32 word \<times> 32 word"
  batchPriTransactionsStarted :: "32 word \<times> 32 word"
  start :: "GetReadVersionRequest list \<times> GetReadVersionRequest list"
  requestsToStart :: int

definition addAt :: "nat \<Rightarrow> 32 word \<Rightarrow> 32 word \<times> 32 word \<Rightarrow> 32 word \<times> 32 word" where
  "addAt i tc a = (if i = 0 then (fst a + tc, snd a) else (fst a, snd a + tc))"

definition pushAt :: "nat \<Rightarrow> 'a \<Rightarrow> 'a list \<times> 'a list \<Rightarrow> 'a list \<times> 'a list" where
  "pushAt i x a = (if i = 0 then (fst a @ [x], snd a) else (fst a, snd a @ [x]))"

datatype QueueId = SystemQ | DefaultQ | BatchQ

definition pickQueue :: "StarterLocals \<Rightarrow> (QueueId \<times> GetReadVersionRequest) option" where
  "pickQueue s =
     (case systemQueue s of req # _ \<Rightarrow> Some (SystemQ, req)
      | [] \<Rightarrow> (case defaultQueue s of req # _ \<Rightarrow> Some (DefaultQ, req)
         | [] \<Rightarrow> (case batchQueue s of req # _ \<Rightarrow> Some (BatchQ, req)
            | [] \<Rightarrow> None)))"

definition pop_front :: "QueueId \<Rightarrow> StarterLocals \<Rightarrow> StarterLocals" where
  "pop_front q s =
     (case q of
        SystemQ \<Rightarrow> s\<lparr>systemQueue := tl (systemQueue s)\<rparr>
      | DefaultQ \<Rightarrow> s\<lparr>defaultQueue := tl (defaultQueue s)\<rparr>
      | BatchQ \<Rightarrow> s\<lparr>batchQueue := tl (batchQueue s)\<rparr>)"

definition admit :: "QueueId \<Rightarrow> GetReadVersionRequest \<Rightarrow> StarterLocals \<Rightarrow> StarterLocals" where
  "admit q req s =
     (let tc = (word_of_nat (transactionCount req) :: 32 word);
          i = flags req mod 2;
          s1 = s\<lparr>transactionsStarted := addAt i tc (transactionsStarted s)\<rparr>;
          s2 = (if priority_rank (priority req) \<ge> priority_rank IMMEDIATE
                then s1\<lparr>systemTransactionsStarted := addAt i tc (systemTransactionsStarted s1)\<rparr>
                else if priority_rank (priority req) \<ge> priority_rank DEFAULT
                then s1\<lparr>defaultPriTransactionsStarted := addAt i tc (defaultPriTransactionsStarted s1)\<rparr>
                else s1\<lparr>batchPriTransactionsStarted := addAt i tc (batchPriTransactionsStarted s1)\<rparr>);
          s3 = s2\<lparr>start := pushAt i req (start s2)\<rparr>;
          s4 = pop_front q s3
      in s4\<lparr>requestsToStart := requestsToStart s4 + 1\<rparr>)"

definition queuedRequests :: "StarterLocals \<Rightarrow> nat" where
  "queuedRequests s = length (systemQueue s) + length (defaultQueue s) + length (batchQueue s)"

text \<open>
  The \<^verbatim>\<open>while\<close> loop that selects the requests to start. The arguments of
  \<^verbatim>\<open>canStart\<close> are \<^verbatim>\<open>int64_t\<close>: the 32-bit sum
  \<^verbatim>\<open>transactionsStarted[0] + transactionsStarted[1]\<close> and \<open>tc\<close> are widened with their
  sign.
\<close>

function drainQueues :: "ServerKnobs \<Rightarrow> 's GrvTransactionRateInfo \<Rightarrow> 's GrvTransactionRateInfo
    \<Rightarrow> StarterLocals \<Rightarrow> StarterLocals" where
  "drainQueues K normalRateInfo batchRateInfo s =
     (if \<not> (requestsToStart s < START_TRANSACTION_MAX_REQUESTS_TO_START K) then s
      else case pickQueue s of
        None \<Rightarrow> s
      | Some (q, req) \<Rightarrow>
          (let tc = (word_of_nat (transactionCount req) :: 32 word);
               started = fst (transactionsStarted s) + snd (transactionsStarted s)
           in if priority_rank (priority req) < priority_rank DEFAULT
                 \<and> \<not> canStart K batchRateInfo (sint started) (sint tc) then s
              else if priority_rank (priority req) < priority_rank IMMEDIATE
                 \<and> \<not> canStart K normalRateInfo (sint started) (sint tc) then s
              else drainQueues K normalRateInfo batchRateInfo (admit q req s)))"
  by pat_completeness auto
termination
  by (relation "measure (\<lambda>(K, n, b, s). queuedRequests s)")
     (auto simp: pickQueue_def admit_def pop_front_def queuedRequests_def Let_def
           split: list.splits QueueId.splits)

record 's StarterState =
  normalRateInfo :: "'s GrvTransactionRateInfo"
  batchRateInfo :: "'s GrvTransactionRateInfo"
  queues :: StarterLocals
  transactionCount_total :: int
  batchTransactionCount_total :: int
  lastGRVTime :: real

definition freshLocals :: "StarterLocals \<Rightarrow> StarterLocals" where
  "freshLocals s =
     s\<lparr>transactionsStarted := (0, 0), systemTransactionsStarted := (0, 0),
       defaultPriTransactionsStarted := (0, 0), batchPriTransactionsStarted := (0, 0),
       start := ([], []), requestsToStart := 0\<rparr>"

text \<open>
  One iteration of the loop of \<^verbatim>\<open>transactionStarter\<close>, from the timer firing at time
  \<open>t\<close> to the two calls of \<^verbatim>\<open>updateBudget\<close>. The calls that fetch the read version
  and send the replies come after and do not touch the rate state. The three totals are
  \<^verbatim>\<open>int\<close>, and so are the sums handed to \<^verbatim>\<open>updateBudget\<close>, which widens them to
  \<^verbatim>\<open>int64_t\<close>.
\<close>

definition transactionStarter_iteration :: "'s SmootherOps \<Rightarrow> ServerKnobs \<Rightarrow> real
    \<Rightarrow> 's StarterState \<Rightarrow> 's StarterState" where
  "transactionStarter_iteration ops K t S =
     (let elapsed0 = t - lastGRVTime S;
          elapsed = (if elapsed0 = 0 then 1 / 10 ^ 15 else elapsed0);
          normal1 = reset ops K t (normalRateInfo S);
          batch1 = reset ops K t (batchRateInfo S);
          s = drainQueues K normal1 batch1 (freshLocals (queues S));
          systemTotalStarted = fst (systemTransactionsStarted s) + snd (systemTransactionsStarted s);
          normalTotalStarted =
            fst (defaultPriTransactionsStarted s) + snd (defaultPriTransactionsStarted s);
          batchTotalStarted = fst (batchPriTransactionsStarted s) + snd (batchPriTransactionsStarted s);
          normal2 = updateBudget ops K t (sint (systemTotalStarted + normalTotalStarted))
                      (systemQueue s = [] \<and> defaultQueue s = []) elapsed normal1;
          batch2 = updateBudget ops K t
                      (sint (systemTotalStarted + normalTotalStarted + batchTotalStarted))
                      (systemQueue s = [] \<and> defaultQueue s = [] \<and> batchQueue s = []) elapsed batch1
      in S\<lparr>normalRateInfo := normal2, batchRateInfo := batch2, queues := s,
            transactionCount_total := transactionCount_total S
               + sint (fst (transactionsStarted s) + snd (transactionsStarted s)),
            batchTransactionCount_total := batchTransactionCount_total S + sint batchTotalStarted,
            lastGRVTime := t\<rparr>)"


declare drainQueues.simps [simp del]

section \<open>GRV proxy: request intake\<close>

text \<open>
  The \<^verbatim>\<open>when\<close> branch of \<^verbatim>\<open>queueGetReadVersionRequests\<close> that receives a
  request. The counters of \<^verbatim>\<open>GrvProxyStats\<close> that the branch touches are fields of
  the state; \<open>GRVTimer\<close> collects the delays handed to \<^verbatim>\<open>forwardPromise\<close>. Of the
  reply only the two fields that the branch assigns are kept.
\<close>

record GetReadVersionReply =
  reply_version :: int
  reply_locked :: bool

datatype GrvResponse = SendReply GetReadVersionReply | SendError Error

fun isErrorResponse :: "GrvResponse \<Rightarrow> bool" where
  "isErrorResponse (SendError e) = True"
| "isErrorResponse (SendReply r) = False"

record IntakeState = GrvQueues +
  txnRequestIn :: int
  txnRequestOut :: int
  txnRequestErrors :: int
  txnStartIn :: int
  txnSystemPriorityStartIn :: int
  txnDefaultPriorityStartIn :: int
  txnBatchPriorityStartIn :: int
  txnThrottled :: int
  transactionTagCounter :: "string \<Rightarrow> nat"
  GRVTimer :: "real list"

definition countTags :: "(string \<times> nat) list \<Rightarrow> (string \<Rightarrow> nat) \<Rightarrow> (string \<Rightarrow> nat)" where
  "countTags ts m = foldl (\<lambda>m tag. m(fst tag := m (fst tag) + snd tag)) m ts"

text \<open>
  \<open>batchRate\<close> is \<^verbatim>\<open>batchRateInfo->rate\<close>, \<open>grvProxies_size\<close> is
  \<^verbatim>\<open>db->get().client.grvProxies.size()\<close> and \<open>timerDelay\<close> is
  \<^verbatim>\<open>*GRVBatchTime - (now() - *lastGRVTime)\<close>. The result is the answer sent at intake,
  if any, and the state after the branch.
\<close>

definition queueGetReadVersionRequests :: "ServerKnobs \<Rightarrow> real \<Rightarrow> nat \<Rightarrow> real
    \<Rightarrow> GetReadVersionRequest \<Rightarrow> IntakeState \<Rightarrow> GrvResponse option \<times> IntakeState" where
  "queueGetReadVersionRequests K batchRate grvProxies_size timerDelay req S =
     (if txnRequestIn S - txnRequestOut S > START_TRANSACTION_MAX_QUEUE_SIZE K
      then (Some (SendReply \<lparr>reply_version = 1, reply_locked = True\<rparr>),
            S\<lparr>txnRequestErrors := txnRequestErrors S + 1\<rparr>)
      else
        (let S1 = S\<lparr>transactionTagCounter := countTags (tags req) (transactionTagCounter S)\<rparr>;
             S2 = (if systemQueue S1 = [] \<and> defaultQueue S1 = [] \<and> batchQueue S1 = []
                   then S1\<lparr>GRVTimer := GRVTimer S1 @ [max 0 timerDelay]\<rparr> else S1);
             tc = int (transactionCount req);
             S3 = S2\<lparr>txnRequestIn := txnRequestIn S2 + 1, txnStartIn := txnStartIn S2 + tc\<rparr>
         in if priority_rank (priority req) \<ge> priority_rank IMMEDIATE
            then (None, S3\<lparr>txnSystemPriorityStartIn := txnSystemPriorityStartIn S3 + tc,
                            systemQueue := systemQueue S3 @ [req]\<rparr>)
            else if priority_rank (priority req) \<ge> priority_rank DEFAULT
            then (None, S3\<lparr>txnDefaultPriorityStartIn := txnDefaultPriorityStartIn S3 + tc,
                            defaultQueue := defaultQueue S3 @ [req]\<rparr>)
            else
              (let proxiesCount = max (int grvProxies_size) 1
               in if batchRate \<le> 1 / real_of_int proxiesCount
                  then (Some (SendError batch_transaction_throttled),
                        S3\<lparr>txnThrottled := txnThrottled S3 + tc\<rparr>)
                  else (None, S3\<lparr>txnBatchPriorityStartIn := txnBatchPriorityStartIn S3 + tc,
                                  batchQueue := batchQueue S3 @ [req]\<rparr>))))"


subsection \<open>Concrete states for the GRV proxy\<close>

text \<open>
  A rate state as the constructor followed by \<^verbatim>\<open>setRate(12)\<close> leaves it, over the
  smoother at rest.
\<close>

definition rate12 :: "real GrvTransactionRateInfo" where
  "rate12 = \<lparr>rate = 12, limit = 0, budget = 0, disabled = False, smoothRate = 12, smoothReleased = 0\<rparr>"

text \<open>
  The state \<open>rate12\<close> one second later, after a window in which nothing was started
  although requests were waiting.
\<close>

definition accumulated :: "real GrvTransactionRateInfo" where
  "accumulated = updateBudget steadySmoother exampleKnobs 1 0 False 1
                   (reset steadySmoother exampleKnobs 1 rate12)"

definition emptyLocals :: StarterLocals where
  "emptyLocals =
     \<lparr>systemQueue = [], defaultQueue = [], batchQueue = [],
      transactionsStarted = (0, 0), systemTransactionsStarted = (0, 0),
      defaultPriTransactionsStarted = (0, 0), batchPriTransactionsStarted = (0, 0),
      start = ([], []), requestsToStart = 0\<rparr>"

text \<open>A default-priority request that stands for thirty transactions.\<close>

definition bigDefaultRequest :: GetReadVersionRequest where
  "bigDefaultRequest = \<lparr>priority = DEFAULT, transactionCount = 30, flags = 0, tags = []\<rparr>"

definition batchRequest :: GetReadVersionRequest where
  "batchRequest = \<lparr>priority = BATCH, transactionCount = 1, flags = 0, tags = []\<rparr>"

definition blockedStarter :: "real StarterState" where
  "blockedStarter =
     \<lparr>normalRateInfo = rate12, batchRateInfo = rate12,
      queues = emptyLocals\<lparr>defaultQueue := [bigDefaultRequest]\<rparr>,
      transactionCount_total = 0, batchTransactionCount_total = 0, lastGRVTime = 0\<rparr>"

text \<open>A default-priority request whose count, 3000000000, does not fit a signed 32-bit
  number, waiting alone.\<close>

definition hugeRequest :: GetReadVersionRequest where
  "hugeRequest = \<lparr>priority = DEFAULT, transactionCount = 3000000000, flags = 0, tags = []\<rparr>"

definition hugeStarter :: "real StarterState" where
  "hugeStarter = blockedStarter\<lparr>queues := emptyLocals\<lparr>defaultQueue := [hugeRequest]\<rparr>\<rparr>"

definition idleStarter :: "real StarterState" where
  "idleStarter =
     \<lparr>normalRateInfo = rate12, batchRateInfo = rate12, queues = emptyLocals,
      transactionCount_total = 0, batchTransactionCount_total = 0, lastGRVTime = 0\<rparr>"

definition quietIntake :: IntakeState where
  "quietIntake =
     \<lparr>systemQueue = [], defaultQueue = [], batchQueue = [],
      txnRequestIn = 5, txnRequestOut = 5, txnRequestErrors = 0, txnStartIn = 5,
      txnSystemPriorityStartIn = 0, txnDefaultPriorityStartIn = 5, txnBatchPriorityStartIn = 0,
      txnThrottled = 0, transactionTagCounter = (\<lambda>tag. 0), GRVTimer = []\<rparr>"

text \<open>An intake whose in-flight count is one above the example queue-size cap.\<close>

definition floodedIntake :: IntakeState where
  "floodedIntake = quietIntake\<lparr>txnRequestIn := 1000006\<rparr>"

section \<open>Commit proxy: data\<close>

text \<open>
  Keys and values are byte strings (\<^verbatim>\<open>StringRef\<close>), compared lexicographically byte by
  byte; \<^verbatim>\<open>Version\<close> is \<^verbatim>\<open>int64_t\<close>. Of \<^verbatim>\<open>MutationRef::Type\<close>, declared outside the
  sources at hand, the four types that the embedded code names are kept apart; every
  other atomic operation is \<open>AtomicOp\<close> with its code.
\<close>

type_synonym Key = "8 word list"

type_synonym Version = int

record KeyRangeRef =
  range_begin :: Key
  range_end :: Key

datatype MutationType =
  SetValue | ClearRange | SetVersionstampedKey | SetVersionstampedValue | AtomicOp nat

record MutationRef =
  mutation_type :: MutationType
  param1 :: Key
  param2 :: Key

record CommitTransactionRef =
  read_conflict_ranges :: "KeyRangeRef list"
  write_conflict_ranges :: "KeyRangeRef list"
  mutations :: "MutationRef list"
  read_snapshot :: Version
  report_conflicting_keys :: bool

record CommitTransactionRequest =
  transaction :: CommitTransactionRef
  isLockAware :: bool

text \<open>
  What the embedded code uses but the sources at hand do not contain is gathered in
  \<open>ProxyEnv\<close> and passed as a parameter:
  \<^item> \<open>keyResolvers_intersectingRanges r\<close> is the list of values that iterating
    \<^verbatim>\<open>self->keyResolvers.intersectingRanges(r)\<close> yields: for each stored range that
    meets \<open>r\<close>, its history of (version, resolver) pairs, newest last;
  \<^item> \<open>isMetadataMutation\<close>, \<open>transformVersionstampMutation\<close> (with the member pointer
    \<^verbatim>\<open>&MutationRef::param1\<close> or \<^verbatim>\<open>&MutationRef::param2\<close> as a \<open>Param\<close>) and
    \<open>singleKeyRange\<close> are the helpers of these names;
  \<^item> the remaining fields are the constants of these names.
\<close>

datatype Param = Param1 | Param2

record ProxyEnv =
  keyResolvers_intersectingRanges :: "KeyRangeRef \<Rightarrow> (Version \<times> nat) list list"
  isMetadataMutation :: "MutationRef \<Rightarrow> bool"
  transformVersionstampMutation :: "MutationRef \<Rightarrow> Param \<Rightarrow> Version \<Rightarrow> int \<Rightarrow> MutationRef"
  singleKeyRange :: "Key \<Rightarrow> KeyRangeRef"
  databaseLockedKey :: Key
  databaseLockedKeyEnd :: Key
  mustContainSystemMutationsKey :: Key
  nonMetadataSystemKeys_end :: Key
  invalidVersion :: Version

text \<open>Sequencing of steps that may fail.\<close>

definition bindE :: "Error + 'a \<Rightarrow> ('a \<Rightarrow> Error + 'b) \<Rightarrow> Error + 'b" where
  "bindE x f = (case x of Inl e \<Rightarrow> Inl e | Inr v \<Rightarrow> f v)"

fun foldE :: "('a \<Rightarrow> 's \<Rightarrow> Error + 's) \<Rightarrow> 'a list \<Rightarrow> 's \<Rightarrow> Error + 's" where
  "foldE f [] s = Inr s"
| "foldE f (x # xs) s = bindE (f x s) (foldE f xs)"

section \<open>Commit proxy: \<^verbatim>\<open>ResolutionRequestBuilder\<close>\<close>

record ResolveTransactionBatchRequest =
  req_prevVersion :: Version
  req_version :: Version
  req_lastReceivedVersion :: Version
  req_transactions :: "CommitTransactionRef list"
  txnStateTransactions :: "nat list"

text \<open>
  The two index maps are members of the builder and, after \<^verbatim>\<open>getResolution\<close> has
  swapped them over, of the batch context; both records extend \<open>ResolverMaps\<close>. A
  pointer in \<^verbatim>\<open>outTr\<close> is the index of the element of
  \<^verbatim>\<open>requests[resolver].transactions\<close> it points to, \<open>None\<close> for \<^verbatim>\<open>nullptr\<close>.
\<close>

record ResolverMaps =
  transactionResolverMap :: "nat list list"
  txReadConflictRangeIndexMap :: "nat list list list"

record ResolutionRequestBuilder = ResolverMaps +
  requests :: "ResolveTransactionBatchRequest list"
  outTr :: "nat option list"

definition ResolutionRequestBuilder_init :: "nat \<Rightarrow> Version \<Rightarrow> Version \<Rightarrow> Version
    \<Rightarrow> ResolutionRequestBuilder" where
  "ResolutionRequestBuilder_init resolvers_size version prevVersion lastReceivedVersion =
     \<lparr>transactionResolverMap = [], txReadConflictRangeIndexMap = [],
      requests = replicate resolvers_size
        \<lparr>req_prevVersion = prevVersion, req_version = version,
         req_lastReceivedVersion = lastReceivedVersion, req_transactions = [],
         txnStateTransactions = []\<rparr>,
      outTr = []\<rparr>"

definition emptyTransaction :: CommitTransactionRef where
  "emptyTransaction =
     \<lparr>read_conflict_ranges = [], write_conflict_ranges = [], mutations = [], read_snapshot = 0,
      report_conflicting_keys = False\<rparr>"

definition getOutTransaction :: "nat \<Rightarrow> Version \<Rightarrow> ResolutionRequestBuilder
    \<Rightarrow> Error + ResolutionRequestBuilder" where
  "getOutTransaction resolver snap b =
     (if resolver \<ge> length (outTr b) then Inl undefined_behaviour
      else case outTr b ! resolver of
        Some i \<Rightarrow> Inr b
      | None \<Rightarrow>
          if resolver \<ge> length (requests b) then Inl undefined_behaviour
          else
            (let request = requests b ! resolver;
                 request' = request\<lparr>req_transactions :=
                              req_transactions request @ [emptyTransaction\<lparr>read_snapshot := snap\<rparr>]\<rparr>
             in Inr (b\<lparr>requests := (requests b)[resolver := request'],
                       outTr := (outTr b)[resolver := Some (length (req_transactions request))]\<rparr>)))"

text \<open>
  \<open>updateOut resolver f\<close> applies \<open>f\<close> to the transaction that \<^verbatim>\<open>outTr[resolver]\<close>
  points to, and \<open>onOutTransaction resolver snap f\<close> is a use of the reference that
  \<^verbatim>\<open>getOutTransaction(resolver, snap)\<close> returns: \<open>f\<close> is applied to the transaction
  referred to.
\<close>

definition updateOut :: "nat \<Rightarrow> (CommitTransactionRef \<Rightarrow> CommitTransactionRef)
    \<Rightarrow> ResolutionRequestBuilder \<Rightarrow> Error + ResolutionRequestBuilder" where
  "updateOut resolver f b =
     (if resolver \<ge> length (outTr b) \<or> resolver \<ge> length (requests b) then Inl undefined_behaviour
      else case outTr b ! resolver of
        None \<Rightarrow> Inl undefined_behaviour
      | Some i \<Rightarrow>
          (let request = requests b ! resolver
           in Inr (b\<lparr>requests := (requests b)[resolver := request\<lparr>req_transactions :=
                       (req_transactions request)[i := f (req_transactions request ! i)]\<rparr>]\<rparr>)))"

definition onOutTransaction :: "nat \<Rightarrow> Version \<Rightarrow> (CommitTransactionRef \<Rightarrow> CommitTransactionRef)
    \<Rightarrow> ResolutionRequestBuilder \<Rightarrow> Error + ResolutionRequestBuilder" where
  "onOutTransaction resolver snap f b = bindE (getOutTransaction resolver snap b) (updateOut resolver f)"

text \<open>
  One pass of the loop over \<^verbatim>\<open>trIn.mutations\<close>. The loop state is the builder, the
  mutations rewritten so far, the write-conflict ranges of \<^verbatim>\<open>trIn\<close> and
  \<^verbatim>\<open>isTXNStateTransaction\<close>. \<^verbatim>\<open>requests[0]\<close> on a builder without resolvers is an
  out-of-range access.
\<close>

definition addTransaction_mutation :: "ProxyEnv \<Rightarrow> Version \<Rightarrow> int \<Rightarrow> MutationRef
    \<Rightarrow> ResolutionRequestBuilder \<times> MutationRef list \<times> KeyRangeRef list \<times> bool
    \<Rightarrow> Error + (ResolutionRequestBuilder \<times> MutationRef list \<times> KeyRangeRef list \<times> bool)" where
  "addTransaction_mutation env snap transactionNumberInBatch m st =
     (case st of (b, done, wcr, isTXNStateTransaction) \<Rightarrow>
        bindE
          (if mutation_type m = SetVersionstampedKey then
             (if requests b = [] then Inl undefined_behaviour
              else
                (let m' = transformVersionstampMutation env m Param1 (req_version (requests b ! 0))
                            transactionNumberInBatch
                 in Inr (m', wcr @ [singleKeyRange env (param1 m')])))
           else if mutation_type m = SetVersionstampedValue then
             (if requests b = [] then Inl undefined_behaviour
              else Inr (transformVersionstampMutation env m Param2 (req_version (requests b ! 0))
                          transactionNumberInBatch, wcr))
           else Inr (m, wcr))
          (\<lambda>(m', wcr').
             if isMetadataMutation env m'
             then bindE (onOutTransaction 0 snap (\<lambda>tr. tr\<lparr>mutations := mutations tr @ [m']\<rparr>) b)
                    (\<lambda>b'. Inr (b', done @ [m'], wcr', True))
             else Inr (b, done @ [m'], wcr', isTXNStateTransaction)))"

text \<open>
  The resolvers chosen for a read-conflict range: each history is walked from its newest
  entry back to the first entry older than the read snapshot. A \<^verbatim>\<open>std::set<int>\<close> is
  iterated in ascending order without repetition.
\<close>

fun historyResolvers :: "Version \<Rightarrow> (Version \<times> nat) list \<Rightarrow> nat list" where
  "historyResolvers snap [] = []"
| "historyResolvers snap (vr # older) =
     (if fst vr < snap then [snd vr] else snd vr # historyResolvers snap older)"

definition readResolvers :: "ProxyEnv \<Rightarrow> Version \<Rightarrow> KeyRangeRef \<Rightarrow> nat list" where
  "readResolvers env snap r =
     sort (remdups (concat (map (\<lambda>version_resolver. historyResolvers snap (rev version_resolver))
                               (keyResolvers_intersectingRanges env r))))"

definition addReadConflictRange :: "ProxyEnv \<Rightarrow> Version \<Rightarrow> nat \<times> KeyRangeRef
    \<Rightarrow> ResolutionRequestBuilder \<times> nat list list
    \<Rightarrow> Error + (ResolutionRequestBuilder \<times> nat list list)" where
  "addReadConflictRange env snap ir st =
     (let resolvers = readResolvers env snap (snd ir)
      in if resolvers = [] then Inl assertion_failed
         else foldE (\<lambda>resolver (b, rCRIndexMap).
                 bindE (onOutTransaction resolver snap
                          (\<lambda>tr. tr\<lparr>read_conflict_ranges := read_conflict_ranges tr @ [snd ir]\<rparr>) b)
                   (\<lambda>b'. if resolver \<ge> length rCRIndexMap then Inl undefined_behaviour
                         else Inr (b', rCRIndexMap[resolver := rCRIndexMap ! resolver @ [fst ir]])))
              resolvers st)"

text \<open>For a write-conflict range the newest entry of each history owns it; \<^verbatim>\<open>back()\<close>
  of an empty history is undefined.\<close>

definition writeResolvers :: "ProxyEnv \<Rightarrow> KeyRangeRef \<Rightarrow> Error + nat list" where
  "writeResolvers env r =
     (let ranges = keyResolvers_intersectingRanges env r
      in if [] \<in> set ranges then Inl undefined_behaviour
         else Inr (sort (remdups (map (\<lambda>version_resolver. snd (last version_resolver)) ranges))))"

definition addWriteConflictRange :: "ProxyEnv \<Rightarrow> Version \<Rightarrow> KeyRangeRef
    \<Rightarrow> ResolutionRequestBuilder \<Rightarrow> Error + ResolutionRequestBuilder" where
  "addWriteConflictRange env snap r b =
     bindE (writeResolvers env r)
       (\<lambda>resolvers.
          if resolvers = [] then Inl assertion_failed
          else foldE (\<lambda>resolver b1. onOutTransaction resolver snap
                        (\<lambda>tr. tr\<lparr>write_conflict_ranges := write_conflict_ranges tr @ [r]\<rparr>) b1)
                 resolvers b)"

definition addTxnStateTransaction :: "Version \<Rightarrow> nat \<Rightarrow> ResolutionRequestBuilder
    \<Rightarrow> Error + ResolutionRequestBuilder" where
  "addTxnStateTransaction snap r b =
     bindE (getOutTransaction r snap b)
       (\<lambda>b1. case outTr b1 ! r of
           None \<Rightarrow> Inl undefined_behaviour
         | Some transactionNumberInRequest \<Rightarrow>
             Inr (b1\<lparr>requests := (requests b1)[r := (requests b1 ! r)\<lparr>txnStateTransactions :=
                    txnStateTransactions (requests b1 ! r) @ [transactionNumberInRequest]\<rparr>]\<rparr>))"

definition markReport :: "bool \<Rightarrow> nat option \<times> ResolveTransactionBatchRequest
    \<Rightarrow> ResolveTransactionBatchRequest" where
  "markReport rck orq =
     (case fst orq of
        None \<Rightarrow> snd orq
      | Some i \<Rightarrow> (snd orq)\<lparr>req_transactions := (req_transactions (snd orq))
                      [i := (req_transactions (snd orq) ! i)\<lparr>report_conflicting_keys := rck\<rparr>]\<rparr>)"

definition resolversUsedOf :: "nat option list \<Rightarrow> nat list" where
  "resolversUsedOf out = filter (\<lambda>r. out ! r \<noteq> None) [0..<length out]"

text \<open>
  The read-conflict ranges of \<^verbatim>\<open>trIn\<close> after the step that gives a metadata
  transaction without lock awareness a read-conflict range on the database-locked key.
\<close>

definition withLockedRange :: "ProxyEnv \<Rightarrow> CommitTransactionRequest \<Rightarrow> bool \<Rightarrow> KeyRangeRef list" where
  "withLockedRange env trRequest isTXNStateTransaction =
     (if isTXNStateTransaction \<and> \<not> isLockAware trRequest
      then read_conflict_ranges (transaction trRequest)
             @ [\<lparr>range_begin = databaseLockedKey env, range_end = databaseLockedKeyEnd env\<rparr>]
      else read_conflict_ranges (transaction trRequest))"

text \<open>The loop that enters a metadata transaction in \<^verbatim>\<open>txnStateTransactions\<close> of every
  request.\<close>

definition addTxnStateTransactions :: "Version \<Rightarrow> bool \<Rightarrow> ResolutionRequestBuilder
    \<Rightarrow> Error + ResolutionRequestBuilder" where
  "addTxnStateTransactions snap isTXNStateTransaction b =
     (if isTXNStateTransaction
      then foldE (addTxnStateTransaction snap) [0..<length (requests b)] b
      else Inr b)"

definition addTransaction :: "ProxyEnv \<Rightarrow> CommitTransactionRequest \<Rightarrow> int
    \<Rightarrow> ResolutionRequestBuilder \<Rightarrow> Error + (ResolutionRequestBuilder \<times> CommitTransactionRequest)" where
  "addTransaction env trRequest transactionNumberInBatch b0 =
     (let trIn = transaction trRequest;
          snap = read_snapshot trIn;
          b = b0\<lparr>outTr := replicate (length (requests b0)) None\<rparr>
      in if \<not> (transactionNumberInBatch \<ge> 0 \<and> transactionNumberInBatch < 32768)
         then Inl assertion_failed
         else
           bindE (foldE (addTransaction_mutation env snap transactionNumberInBatch) (mutations trIn)
                    (b, [], write_conflict_ranges trIn, False))
             (\<lambda>(b1, ms, wcr, isTXNStateTransaction).
                let rcr = withLockedRange env trRequest isTXNStateTransaction
                in bindE (foldE (addReadConflictRange env snap) (zip [0..<length rcr] rcr)
                            (b1, replicate (length (requests b1)) []))
                     (\<lambda>(b2, rCRIndexMap).
                        bindE (foldE (addWriteConflictRange env snap) wcr
                                 (b2\<lparr>txReadConflictRangeIndexMap :=
                                       txReadConflictRangeIndexMap b2 @ [rCRIndexMap]\<rparr>))
                          (\<lambda>b3. bindE (addTxnStateTransactions snap isTXNStateTransaction b3)
                                  (\<lambda>b4. Inr
                                     (b4\<lparr>requests := map (markReport (report_conflicting_keys trIn))
                                                        (zip (outTr b4) (requests b4)),
                                          transactionResolverMap :=
                                            transactionResolverMap b4 @ [resolversUsedOf (outTr b4)]\<rparr>,
                                      trRequest\<lparr>transaction := trIn
                                         \<lparr>mutations := ms, write_conflict_ranges := wcr,
                                          read_conflict_ranges := rcr\<rparr>\<rparr>))))))"

text \<open>The loop of \<^verbatim>\<open>getResolution\<close> that adds the transactions of a batch, starting
  with number \<open>t\<close>; it returns the builder and the transactions as the builder left
  them.\<close>

fun addTransactions :: "ProxyEnv \<Rightarrow> int \<Rightarrow> CommitTransactionRequest list
    \<Rightarrow> ResolutionRequestBuilder
    \<Rightarrow> Error + (ResolutionRequestBuilder \<times> CommitTransactionRequest list)" where
  "addTransactions env t [] b = Inr (b, [])"
| "addTransactions env t (tr # rest) b =
     bindE (addTransaction env tr t b)
       (\<lambda>(b1, tr1). bindE (addTransactions env (t + 1) rest b1)
                      (\<lambda>(b2, rest1). Inr (b2, tr1 # rest1)))"

section \<open>Commit proxy: the batch context\<close>

text \<open>
  The verdict codes of \<^verbatim>\<open>ConflictBatch\<close> (fdbserver/ConflictSet.h) are not among the
  sources at hand. They are bytes, combined with \<^verbatim>\<open>std::min\<close>; the spec calls the
  minimum the most restrictive verdict, so \<^verbatim>\<open>TransactionCommitted\<close> is the largest of
  the three codes.
\<close>

definition TransactionConflict :: "8 word" where
  "TransactionConflict = 0"

definition TransactionTooOld :: "8 word" where
  "TransactionTooOld = 1"

definition TransactionCommitted :: "8 word" where
  "TransactionCommitted = 2"

record ResolveTransactionBatchReply =
  committed :: "8 word list"
  conflictingKeyRangeMap :: "nat \<rightharpoonup> nat list"

text \<open>
  The members of \<^verbatim>\<open>CommitBatchContext\<close> that resolution, gating and reply use;
  \<open>ctx_committed\<close> is the member \<^verbatim>\<open>committed\<close>.
\<close>

record CommitBatchContext = ResolverMaps +
  trs :: "CommitTransactionRequest list"
  resolution :: "ResolveTransactionBatchReply list"
  ctx_committed :: "8 word list"
  nextTr :: "nat list"
  lockedKey :: "Key option"
  locked :: bool
  lockedAfter :: bool
  metadataVersionAfter :: "Key option"
  commitVersion :: Version
  prevVersion :: Version
  forceRecovery :: bool

text \<open>The constructor, with the members that later phases fill left empty.\<close>

definition CommitBatchContext_init :: "CommitTransactionRequest list \<Rightarrow> CommitBatchContext" where
  "CommitBatchContext_init txs =
     \<lparr>transactionResolverMap = [], txReadConflictRangeIndexMap = [], trs = txs, resolution = [],
      ctx_committed = replicate (length txs) 0, nextTr = [], lockedKey = None, locked = False,
      lockedAfter = False, metadataVersionAfter = None, commitVersion = 0, prevVersion = 0,
      forceRecovery = False\<rparr>"

definition resize :: "nat list \<Rightarrow> nat \<Rightarrow> nat list" where
  "resize xs n = take n xs @ replicate (n - length xs) 0"

text \<open>
  \<^verbatim>\<open>getResolution\<close>: the requests are built from the transactions of the batch, sent,
  and answered. \<open>resolve r\<close> stands for resolver \<open>r\<close>, which answers the request it
  receives; \<open>lastReceivedVersion\<close> is \<^verbatim>\<open>pProxyCommitData->version\<close>. The result is the
  list of requests sent and the context with the two index maps, the rewritten
  transactions and the answers in place.
\<close>

definition getResolution :: "ProxyEnv \<Rightarrow> nat \<Rightarrow> Version
    \<Rightarrow> (nat \<Rightarrow> ResolveTransactionBatchRequest \<Rightarrow> ResolveTransactionBatchReply)
    \<Rightarrow> CommitBatchContext
    \<Rightarrow> Error + (ResolveTransactionBatchRequest list \<times> CommitBatchContext)" where
  "getResolution env resolvers_size lastReceivedVersion resolve self =
     bindE (addTransactions env 0 (trs self)
              (ResolutionRequestBuilder_init resolvers_size (commitVersion self) (prevVersion self)
                 lastReceivedVersion))
       (\<lambda>(b, txs).
          if list_ex (\<lambda>r. length (txnStateTransactions (requests b ! r))
                            \<noteq> length (txnStateTransactions (requests b ! 0)))
               [1..<resolvers_size]
          then Inl assertion_failed
          else Inr (requests b,
                    self\<lparr>trs := txs, transactionResolverMap := transactionResolverMap b,
                         txReadConflictRangeIndexMap := txReadConflictRangeIndexMap b,
                         resolution := map (\<lambda>r. resolve r (requests b ! r)) [0..<resolvers_size]\<rparr>))"

text \<open>
  The position of transaction \<open>t\<close> of the batch among the transactions that resolver
  \<open>r\<close> received: the number of earlier transactions sent to \<open>r\<close>.
\<close>

definition indexOnResolver :: "nat list list \<Rightarrow> nat \<Rightarrow> nat \<Rightarrow> nat" where
  "indexOnResolver trMap r t = length (filter (\<lambda>rs. r \<in> set rs) (take t trMap))"

text \<open>
  The inner loop of \<^verbatim>\<open>determineCommittedTransactions\<close>: the minimum over the verdicts
  of the resolvers of one transaction, each read at \<^verbatim>\<open>nextTr[r]++\<close>.
\<close>

fun minOverResolvers :: "ResolveTransactionBatchReply list \<Rightarrow> nat list \<Rightarrow> nat list \<Rightarrow> 8 word
    \<Rightarrow> Error + (8 word \<times> nat list)" where
  "minOverResolvers res nt [] commit = Inr (commit, nt)"
| "minOverResolvers res nt (r # rs) commit =
     (if r \<ge> length res \<or> r \<ge> length nt then Inl undefined_behaviour
      else if nt ! r \<ge> length (committed (res ! r)) then Inl undefined_behaviour
      else minOverResolvers res (nt[r := nt ! r + 1]) rs (min (committed (res ! r) ! (nt ! r)) commit))"

text \<open>The loop over the transactions \<open>ts\<close> of the batch, given by their numbers.\<close>

fun determineLoop :: "ResolveTransactionBatchReply list \<Rightarrow> nat list list \<Rightarrow> nat list
    \<Rightarrow> 8 word list \<times> nat list \<Rightarrow> Error + (8 word list \<times> nat list)" where
  "determineLoop res trMap [] st = Inr st"
| "determineLoop res trMap (t # ts) st =
     (case st of (cm, nt) \<Rightarrow>
        if t \<ge> length trMap \<or> t \<ge> length cm then Inl undefined_behaviour
        else bindE (minOverResolvers res nt (trMap ! t) TransactionCommitted)
               (\<lambda>(commit, nt'). determineLoop res trMap ts (cm[t := commit], nt')))"

definition foundSystem :: "ProxyEnv \<Rightarrow> CommitTransactionRequest \<Rightarrow> bool" where
  "foundSystem env tr =
     list_ex (\<lambda>m. (if mutation_type m = ClearRange then param2 m else param1 m)
                    \<ge> nonMetadataSystemKeys_end env)
       (mutations (transaction tr))"

definition presentAndNonEmpty :: "Key option \<Rightarrow> bool" where
  "presentAndNonEmpty v = (case v of None \<Rightarrow> False | Some x \<Rightarrow> x \<noteq> [])"

definition mustContainSystemPass :: "ProxyEnv \<Rightarrow> CommitTransactionRequest list \<Rightarrow> 8 word list
    \<Rightarrow> 8 word list" where
  "mustContainSystemPass env txs cm =
     map (\<lambda>t. if t < length txs \<and> cm ! t = TransactionCommitted \<and> \<not> foundSystem env (txs ! t)
               then TransactionConflict else cm ! t)
       [0..<length cm]"

text \<open>
  \<open>store\<close> is the content of \<^verbatim>\<open>txnStateStore\<close> as \<^verbatim>\<open>readValue\<close> returns it. The call
  \<^verbatim>\<open>logAdapter->setNextVersion\<close> does not bear on the verdicts and is left out.
\<close>

definition determineCommittedTransactions :: "ProxyEnv \<Rightarrow> (Key \<rightharpoonup> Key) \<Rightarrow> CommitBatchContext
    \<Rightarrow> Error + CommitBatchContext" where
  "determineCommittedTransactions env store self =
     (if length (transactionResolverMap self) \<noteq> length (ctx_committed self) then Inl assertion_failed
      else
        bindE (determineLoop (resolution self) (transactionResolverMap self) [0..<length (trs self)]
                 (ctx_committed self, resize (nextTr self) (length (resolution self))))
          (\<lambda>(cm, nt).
             if list_ex (\<lambda>r. nt ! r \<noteq> length (committed (resolution self ! r)))
                  [0..<length (resolution self)]
             then Inl assertion_failed
             else
               (let lk = store (databaseLockedKey env);
                    mustContainSystemKey = store (mustContainSystemMutationsKey env);
                    cm' = (if presentAndNonEmpty mustContainSystemKey
                           then mustContainSystemPass env (trs self) cm else cm)
                in Inr (self\<lparr>ctx_committed := cm', nextTr := nt, lockedKey := lk,
                             locked := presentAndNonEmpty lk\<rparr>))))"

section \<open>Commit proxy: the replies to the clients\<close>

text \<open>
  A client is answered with a \<^verbatim>\<open>CommitID\<close> (version, number in the batch, metadata
  version, conflicting read-conflict-range indices) or with an error.
\<close>

datatype ClientReply = CommitID Version nat "Key option" "nat list option" | ReplyError Error

fun remapIndices :: "nat list option \<Rightarrow> nat list \<Rightarrow> Error + nat list" where
  "remapIndices row [] = Inr []"
| "remapIndices row (rCRIndex # rest) =
     (case row of
        None \<Rightarrow> Inl undefined_behaviour
      | Some indices \<Rightarrow>
          if rCRIndex \<ge> length indices then Inl undefined_behaviour
          else bindE (remapIndices row rest) (\<lambda>is. Inr (indices ! rCRIndex # is)))"

definition rowOf :: "nat list list list \<Rightarrow> nat \<Rightarrow> nat \<Rightarrow> nat list option" where
  "rowOf m t resolverInd =
     (if t < length m \<and> resolverInd < length (m ! t) then Some (m ! t ! resolverInd) else None)"

definition cKRsOf :: "ResolveTransactionBatchReply \<Rightarrow> nat \<Rightarrow> nat list" where
  "cKRsOf rep i = (case conflictingKeyRangeMap rep i of None \<Rightarrow> [] | Some l \<Rightarrow> l)"

text \<open>The loop that collects \<^verbatim>\<open>conflictingKRIndices\<close> for transaction \<open>t\<close>.\<close>

fun collectConflicting :: "CommitBatchContext \<Rightarrow> nat list \<Rightarrow> nat \<Rightarrow> nat list \<Rightarrow> Error + nat list" where
  "collectConflicting self nt t [] = Inr []"
| "collectConflicting self nt t (resolverInd # rest) =
     (if resolverInd \<ge> length (resolution self) \<or> resolverInd \<ge> length nt
      then Inl undefined_behaviour
      else bindE (remapIndices (rowOf (txReadConflictRangeIndexMap self) t resolverInd)
                    (cKRsOf (resolution self ! resolverInd) (nt ! resolverInd)))
             (\<lambda>is. bindE (collectConflicting self nt t rest) (\<lambda>js. Inr (is @ js))))"

definition replyTo :: "ProxyEnv \<Rightarrow> CommitBatchContext \<Rightarrow> nat list \<Rightarrow> nat \<Rightarrow> Error + ClientReply" where
  "replyTo env self nt t =
     (if t \<ge> length (trs self) \<or> t \<ge> length (ctx_committed self) then Inl undefined_behaviour
      else if ctx_committed self ! t = TransactionCommitted
              \<and> (\<not> locked self \<or> isLockAware (trs self ! t))
      then Inr (CommitID (commitVersion self) t (metadataVersionAfter self) None)
      else if ctx_committed self ! t = TransactionTooOld
      then Inr (ReplyError transaction_too_old)
      else if report_conflicting_keys (transaction (trs self ! t))
      then (if t \<ge> length (transactionResolverMap self) then Inl undefined_behaviour
            else bindE (collectConflicting self nt t (transactionResolverMap self ! t))
                   (\<lambda>conflictingKRIndices.
                      if conflictingKRIndices = [] then Inl assertion_failed
                      else Inr (CommitID (invalidVersion env) t None (Some conflictingKRIndices))))
      else Inr (ReplyError not_committed))"

fun bumpNextTr :: "nat list \<Rightarrow> nat list \<Rightarrow> Error + nat list" where
  "bumpNextTr [] nt = Inr nt"
| "bumpNextTr (resolverInd # rest) nt =
     (if resolverInd \<ge> length nt then Inl undefined_behaviour
      else bumpNextTr rest (nt[resolverInd := nt ! resolverInd + 1]))"

text \<open>
  The loop over the transactions \<open>ts\<close>. The result is the list of replies sent, in
  order, and the error that ended the loop early, if one did.
\<close>

fun replyLoop :: "ProxyEnv \<Rightarrow> CommitBatchContext \<Rightarrow> nat list \<Rightarrow> nat list
    \<Rightarrow> ClientReply list \<times> Error option" where
  "replyLoop env self nt [] = ([], None)"
| "replyLoop env self nt (t # ts) =
     (case replyTo env self nt t of
        Inl e \<Rightarrow> ([], Some e)
      | Inr rep \<Rightarrow>
          (if t \<ge> length (transactionResolverMap self) then ([rep], Some undefined_behaviour)
           else case bumpNextTr (transactionResolverMap self ! t) nt of
             Inl e \<Rightarrow> ([rep], Some e)
           | Inr nt' \<Rightarrow> (case replyLoop env self nt' ts of (reps, err) \<Rightarrow> (rep # reps, err))))"

text \<open>
  The part of \<^verbatim>\<open>reply\<close> from the check of \<^verbatim>\<open>forceRecovery\<close> to the end of the loop
  over the transactions.
\<close>

definition reply_clients :: "ProxyEnv \<Rightarrow> CommitBatchContext \<Rightarrow> ClientReply list \<times> Error option" where
  "reply_clients env self =
     (if forceRecovery self then ([], Some worker_removed)
      else replyLoop env self (replicate (length (nextTr self)) 0) [0..<length (trs self)])"

section \<open>Commit proxy: the committed version\<close>

record ProxyCommitData =
  committedVersion :: Version
  pcd_locked :: bool
  metadataVersion :: "Key option"
  minKnownCommittedVersion :: Version

text \<open>
  The assignments that the commit proxy makes to these members. The first rule is the
  guarded update in \<^verbatim>\<open>reply\<close> and, with the values of the master's answer, the one in
  \<^verbatim>\<open>postResolution\<close>; the second is the update in \<^verbatim>\<open>transactionLogging\<close>.
\<close>

inductive proxy_write :: "ProxyCommitData \<Rightarrow> ProxyCommitData \<Rightarrow> bool" where
  advance: "v > committedVersion p \<Longrightarrow>
      proxy_write p (p\<lparr>pcd_locked := l, metadataVersion := m, committedVersion := v\<rparr>)"
| logged: "proxy_write p (p\<lparr>minKnownCommittedVersion := max (minKnownCommittedVersion p) ver\<rparr>)"

record ReportRawCommittedVersionRequest =
  report_version :: Version
  report_locked :: bool
  report_metadataVersion :: "Key option"
  report_minKnownCommittedVersion :: Version

datatype ReplyAction =
    Sent ReportRawCommittedVersionRequest
  | Advanced Version

text \<open>
  The part of \<^verbatim>\<open>reply\<close> that reports the commit version and advances the local
  committed version. \<open>pcd\<close> is the proxy's data when the first test is made; if the
  report is sent the actor waits for the master's answer, and \<open>resumed\<close> is the proxy's
  data when the answer has arrived. The result is the sequence of actions taken and the
  proxy's data afterwards.
\<close>

definition reply_report :: "CommitBatchContext \<Rightarrow> ProxyCommitData \<Rightarrow> ProxyCommitData
    \<Rightarrow> ReplyAction list \<times> ProxyCommitData" where
  "reply_report self pcd resumed =
     (let (acts, p1) =
            (if commitVersion self \<ge> committedVersion pcd
             then ([Sent \<lparr>report_version = commitVersion self, report_locked = lockedAfter self,
                           report_metadataVersion = metadataVersionAfter self,
                           report_minKnownCommittedVersion = minKnownCommittedVersion pcd\<rparr>],
                   resumed)
             else ([], pcd))
      in if commitVersion self > committedVersion p1
         then (acts @ [Advanced (commitVersion self)],
               p1\<lparr>pcd_locked := lockedAfter self, metadataVersion := metadataVersionAfter self,
                   committedVersion := commitVersion self\<rparr>)
         else (acts, p1))"

section \<open>Commit proxy: the MVCC window guard of \<^verbatim>\<open>postResolution\<close>\<close>

record GetRawCommittedVersionReply =
  raw_version :: Version
  raw_locked :: bool
  raw_metadataVersion :: "Key option"

text \<open>
  \<^verbatim>\<open>NotifiedVersion\<close> (flow) is not among the sources. Its member
  \<^verbatim>\<open>whenAtLeast(limit)\<close> returns a future; \<open>whenAtLeast threshold p\<close> says that the
  future for the limit \<open>threshold\<close> is ready when the proxy's data is \<open>p\<close>, and it is a
  parameter of the guard.

  What the \<^verbatim>\<open>choose\<close> of the guard loop is woken with. Each event carries the
  proxy's data as the actor finds it, since other actors run while it waits:
  \<^item> \<open>CommittedVersionReached fired resumed\<close>: the scheduler looks at the first
    \<^verbatim>\<open>when\<close> in state \<open>fired\<close>; if the future of
    \<^verbatim>\<open>whenAtLeast(commitVersion - MAX_READ_TRANSACTION_LIFE_VERSIONS)\<close> is ready there,
    the actor runs \<^verbatim>\<open>yield()\<close>, continues in state \<open>resumed\<close> and leaves the loop;
    if it is not ready the actor keeps waiting;
  \<^item> \<open>ProxiesChanged resumed\<close>: \<^verbatim>\<open>onProxiesChanged\<close> fired;
  \<^item> \<open>MasterReply v arrived afterDelay\<close>: the master answered \<open>v\<close> in state
    \<open>arrived\<close>; \<open>afterDelay\<close> is the state after \<^verbatim>\<open>delay(PROXY_SPIN_DELAY)\<close>, if the
    actor takes that delay.
\<close>

datatype GateEvent =
    CommittedVersionReached ProxyCommitData ProxyCommitData
  | ProxiesChanged ProxyCommitData
  | MasterReply GetRawCommittedVersionReply ProxyCommitData ProxyCommitData

definition refreshFromMaster :: "GetRawCommittedVersionReply \<Rightarrow> ProxyCommitData \<Rightarrow> ProxyCommitData" where
  "refreshFromMaster v p =
     (if raw_version v > committedVersion p
      then p\<lparr>pcd_locked := raw_locked v, metadataVersion := raw_metadataVersion v,
             committedVersion := raw_version v\<rparr>
      else p)"

text \<open>
  The guard loop. \<open>Some p\<close>: the loop is left with the proxy's data \<open>p\<close>; \<open>None\<close>: the
  events are used up and the actor still waits.
\<close>

fun mvccGuard :: "ServerKnobs \<Rightarrow> (Version \<Rightarrow> ProxyCommitData \<Rightarrow> bool) \<Rightarrow> Version
    \<Rightarrow> GateEvent list \<Rightarrow> ProxyCommitData \<Rightarrow> ProxyCommitData option" where
  "mvccGuard K whenAtLeast cv [] p =
     (if committedVersion p < cv - MAX_READ_TRANSACTION_LIFE_VERSIONS K then None else Some p)"
| "mvccGuard K whenAtLeast cv (ev # evs) p =
     (if \<not> committedVersion p < cv - MAX_READ_TRANSACTION_LIFE_VERSIONS K then Some p
      else case ev of
        CommittedVersionReached fired resumed \<Rightarrow>
          if whenAtLeast (cv - MAX_READ_TRANSACTION_LIFE_VERSIONS K) fired then Some resumed
          else mvccGuard K whenAtLeast cv evs p
      | ProxiesChanged resumed \<Rightarrow> mvccGuard K whenAtLeast cv evs resumed
      | MasterReply v arrived afterDelay \<Rightarrow>
          (let p1 = refreshFromMaster v arrived
           in if committedVersion p1 < cv - MAX_READ_TRANSACTION_LIFE_VERSIONS K
              then mvccGuard K whenAtLeast cv evs afterDelay
              else mvccGuard K whenAtLeast cv evs p1))"

record LogPush =
  push_prevVersion :: Version
  push_version :: Version
  push_committedVersion :: Version
  push_minKnownCommittedVersion :: Version

text \<open>
  The arguments with which \<^verbatim>\<open>postResolution\<close> calls \<^verbatim>\<open>logSystem->push\<close>; no wait
  stands between the guard loop and the call.
\<close>

definition postResolution_push :: "ServerKnobs \<Rightarrow> (Version \<Rightarrow> ProxyCommitData \<Rightarrow> bool)
    \<Rightarrow> CommitBatchContext \<Rightarrow> GateEvent list \<Rightarrow> ProxyCommitData \<Rightarrow> LogPush option" where
  "postResolution_push K whenAtLeast self evs p =
     map_option (\<lambda>p'. \<lparr>push_prevVersion = prevVersion self, push_version = commitVersion self,
                       push_committedVersion = committedVersion p',
                       push_minKnownCommittedVersion = minKnownCommittedVersion p'\<rparr>)
       (mvccGuard K whenAtLeast (commitVersion self) evs p)"

text \<open>
  While the actor is in \<^verbatim>\<open>yield()\<close> other actors run; what they do to the proxy's data
  are the assignments collected in \<open>proxy_write\<close>.
\<close>

fun yield_ok :: "GateEvent \<Rightarrow> bool" where
  "yield_ok (CommittedVersionReached fired resumed) = rtranclp proxy_write fired resumed"
| "yield_ok (ProxiesChanged resumed) = True"
| "yield_ok (MasterReply v arrived afterDelay) = True"

subsection \<open>Concrete inputs for the commit proxy\<close>

text \<open>
  A key space with two resolvers: keys below byte 128 belong to resolver 0 and the rest
  to resolver 1, both since version 0. The stand-in for the versionstamp rewrite appends
  the low bytes of the commit version and of the number in the batch to the chosen
  parameter and turns the mutation into a \<open>SetValue\<close>; system keys start with byte 255.
\<close>

definition exampleEnv :: ProxyEnv where
  "exampleEnv =
     \<lparr>keyResolvers_intersectingRanges =
        (\<lambda>r. (if range_begin r < [128] then [[(0, 0)]] else [])
              @ (if [128] < range_end r then [[(0, 1)]] else [])),
      isMetadataMutation = (\<lambda>m. mutation_type m = SetValue \<and> take 1 (param1 m) = [255]),
      transformVersionstampMutation =
        (\<lambda>m p v n. case p of
             Param1 \<Rightarrow> m\<lparr>mutation_type := SetValue,
                          param1 := param1 m @ [word_of_int v, word_of_int n]\<rparr>
           | Param2 \<Rightarrow> m\<lparr>mutation_type := SetValue,
                          param2 := param2 m @ [word_of_int v, word_of_int n]\<rparr>),
      singleKeyRange = (\<lambda>k. \<lparr>range_begin = k, range_end = k @ [0]\<rparr>),
      databaseLockedKey = [255, 100],
      databaseLockedKeyEnd = [255, 100, 0],
      mustContainSystemMutationsKey = [255, 109],
      nonMetadataSystemKeys_end = [255, 3],
      invalidVersion = - 1\<rparr>"

definition exampleBuilder :: ResolutionRequestBuilder where
  "exampleBuilder = ResolutionRequestBuilder_init 2 7 6 5"

text \<open>A transaction that only sets a versionstamped value.\<close>

definition stampedValueRequest :: CommitTransactionRequest where
  "stampedValueRequest =
     \<lparr>transaction =
        \<lparr>read_conflict_ranges = [], write_conflict_ranges = [],
         mutations = [\<lparr>mutation_type = SetVersionstampedValue, param1 = [1], param2 = [9]\<rparr>],
         read_snapshot = 4, report_conflicting_keys = False\<rparr>,
      isLockAware = False\<rparr>"

text \<open>A transaction that only sets a versionstamped key.\<close>

definition stampedKeyRequest :: CommitTransactionRequest where
  "stampedKeyRequest =
     \<lparr>transaction =
        \<lparr>read_conflict_ranges = [], write_conflict_ranges = [],
         mutations = [\<lparr>mutation_type = SetVersionstampedKey, param1 = [1], param2 = [9]\<rparr>],
         read_snapshot = 4, report_conflicting_keys = False\<rparr>,
      isLockAware = False\<rparr>"

text \<open>A transaction that reads one range lying across both resolvers and asks for the
  conflicting keys.\<close>

definition wideReadRequest :: CommitTransactionRequest where
  "wideReadRequest =
     \<lparr>transaction =
        \<lparr>read_conflict_ranges = [\<lparr>range_begin = [100], range_end = [200]\<rparr>],
         write_conflict_ranges = [\<lparr>range_begin = [100], range_end = [100, 0]\<rparr>],
         mutations = [\<lparr>mutation_type = SetValue, param1 = [100], param2 = [1]\<rparr>],
         read_snapshot = 4, report_conflicting_keys = True\<rparr>,
      isLockAware = False\<rparr>"

text \<open>A transaction without conflict ranges that sets one ordinary key.\<close>

definition blindWriteRequest :: CommitTransactionRequest where
  "blindWriteRequest =
     \<lparr>transaction =
        \<lparr>read_conflict_ranges = [], write_conflict_ranges = [],
         mutations = [\<lparr>mutation_type = SetValue, param1 = [1], param2 = [9]\<rparr>],
         read_snapshot = 4, report_conflicting_keys = False\<rparr>,
      isLockAware = False\<rparr>"

text \<open>A proxy whose committed version is 1000000, and a batch with commit version
  9000000; the example window is 5000000 versions.\<close>

definition laggingProxy :: ProxyCommitData where
  "laggingProxy =
     \<lparr>committedVersion = 1000000, pcd_locked = False, metadataVersion = None,
      minKnownCommittedVersion = 900000\<rparr>"

definition lateBatch :: CommitBatchContext where
  "lateBatch = (CommitBatchContext_init [])\<lparr>commitVersion := 9000000, prevVersion := 8999000\<rparr>"

text \<open>A \<^verbatim>\<open>NotifiedVersion\<close> whose future \<^verbatim>\<open>whenAtLeast(limit)\<close> is ready as soon as
  the version has reached the limit. Used for concrete runs.\<close>

definition notifiedAtLeast :: "Version \<Rightarrow> ProxyCommitData \<Rightarrow> bool" where
  "notifiedAtLeast threshold p \<longleftrightarrow> threshold \<le> committedVersion p"

definition guardEvents :: "GateEvent list" where
  "guardEvents =
     [ProxiesChanged laggingProxy,
      MasterReply \<lparr>raw_version = 3000000, raw_locked = False, raw_metadataVersion = None\<rparr>
        laggingProxy (laggingProxy\<lparr>committedVersion := 3000000\<rparr>),
      CommittedVersionReached (laggingProxy\<lparr>committedVersion := 4000000\<rparr>)
        (laggingProxy\<lparr>committedVersion := 4500000\<rparr>)]"

text \<open>Resolvers that find every transaction committed.\<close>

definition alwaysCommitted :: "nat \<Rightarrow> ResolveTransactionBatchRequest \<Rightarrow> ResolveTransactionBatchReply" where
  "alwaysCommitted r rq =
     \<lparr>committed = replicate (length (req_transactions rq)) TransactionCommitted,
      conflictingKeyRangeMap = Map.empty\<rparr>"

text \<open>A batch of the two versionstamped transactions, with commit version 7.\<close>

definition stampedBatch :: CommitBatchContext where
  "stampedBatch =
     (CommitBatchContext_init [stampedValueRequest, stampedKeyRequest])
       \<lparr>commitVersion := 7, prevVersion := 6\<rparr>"

text \<open>
  A batch of one transaction that writes the ordinary key 1 and names it as its
  write-conflict range; the context after \<^verbatim>\<open>getResolution\<close> with resolvers that find
  everything committed.
\<close>

definition plainWriteRequest :: CommitTransactionRequest where
  "plainWriteRequest =
     \<lparr>transaction =
        \<lparr>read_conflict_ranges = [],
         write_conflict_ranges = [\<lparr>range_begin = [1], range_end = [1, 0]\<rparr>],
         mutations = [\<lparr>mutation_type = SetValue, param1 = [1], param2 = [9]\<rparr>],
         read_snapshot = 4, report_conflicting_keys = False\<rparr>,
      isLockAware = False\<rparr>"

definition plainBatch :: CommitBatchContext where
  "plainBatch = (CommitBatchContext_init [plainWriteRequest])\<lparr>commitVersion := 7, prevVersion := 6\<rparr>"

definition plainResolved :: CommitBatchContext where
  "plainResolved = snd (projr (getResolution exampleEnv 2 5 alwaysCommitted plainBatch))"

text \<open>A transaction-state store in which only the must-contain-system-mutations key is
  set, and the context \<open>plainResolved\<close> after \<^verbatim>\<open>determineCommittedTransactions\<close> has
  run against that store and against an empty one.\<close>

definition guardedStore :: "Key \<rightharpoonup> Key" where
  "guardedStore = [mustContainSystemMutationsKey exampleEnv \<mapsto> [1]]"

definition plainGuarded :: CommitBatchContext where
  "plainGuarded = projr (determineCommittedTransactions exampleEnv guardedStore plainResolved)"

definition plainDetermined :: CommitBatchContext where
  "plainDetermined = projr (determineCommittedTransactions exampleEnv Map.empty plainResolved)"

text \<open>A batch of one transaction without conflict ranges that sets an ordinary key, and
  the contexts after \<^verbatim>\<open>getResolution\<close> and \<^verbatim>\<open>determineCommittedTransactions\<close>.\<close>

definition blindBatch :: CommitBatchContext where
  "blindBatch = (CommitBatchContext_init [blindWriteRequest])\<lparr>commitVersion := 7, prevVersion := 6\<rparr>"

definition blindResolved :: CommitBatchContext where
  "blindResolved = snd (projr (getResolution exampleEnv 2 5 alwaysCommitted blindBatch))"

definition blindDetermined :: CommitBatchContext where
  "blindDetermined = projr (determineCommittedTransactions exampleEnv Map.empty blindResolved)"

text \<open>
  Resolvers that find every transaction in conflict and flag the first read-conflict
  range of the first transaction they received; a batch of the transaction whose read
  range lies across both resolvers, and the contexts after \<^verbatim>\<open>getResolution\<close> and
  \<^verbatim>\<open>determineCommittedTransactions\<close>.
\<close>

definition flagFirst :: "nat \<Rightarrow> ResolveTransactionBatchRequest \<Rightarrow> ResolveTransactionBatchReply" where
  "flagFirst r rq =
     \<lparr>committed = replicate (length (req_transactions rq)) TransactionConflict,
      conflictingKeyRangeMap = [0 \<mapsto> [0]]\<rparr>"

definition wideBatch :: CommitBatchContext where
  "wideBatch = (CommitBatchContext_init [wideReadRequest])\<lparr>commitVersion := 7, prevVersion := 6\<rparr>"

definition wideRequests :: "ResolveTransactionBatchRequest list" where
  "wideRequests = fst (projr (getResolution exampleEnv 2 5 flagFirst wideBatch))"

definition wideResolved :: CommitBatchContext where
  "wideResolved = snd (projr (getResolution exampleEnv 2 5 flagFirst wideBatch))"

definition wideDetermined :: CommitBatchContext where
  "wideDetermined = projr (determineCommittedTransactions exampleEnv Map.empty wideResolved)"

text \<open>
  A locked database, and a batch whose first transaction is not lock-aware and asks for
  its conflicting keys, and whose second transaction is a lock-aware write; the contexts
  after \<^verbatim>\<open>getResolution\<close>, with resolvers that find everything committed, and after
  \<^verbatim>\<open>determineCommittedTransactions\<close>.
\<close>

definition lockedStore :: "Key \<rightharpoonup> Key" where
  "lockedStore = [databaseLockedKey exampleEnv \<mapsto> [1]]"

definition lockAwareWriteRequest :: CommitTransactionRequest where
  "lockAwareWriteRequest = plainWriteRequest\<lparr>isLockAware := True\<rparr>"

definition mixedBatch :: CommitBatchContext where
  "mixedBatch =
     (CommitBatchContext_init [wideReadRequest, lockAwareWriteRequest])
       \<lparr>commitVersion := 7, prevVersion := 6\<rparr>"

definition mixedResolved :: CommitBatchContext where
  "mixedResolved = snd (projr (getResolution exampleEnv 2 5 alwaysCommitted mixedBatch))"

definition mixedDetermined :: CommitBatchContext where
  "mixedDetermined = projr (determineCommittedTransactions exampleEnv lockedStore mixedResolved)"

subsection \<open>Notions used to state how the builder grows\<close>

text \<open>
  \<open>pendingOf b r\<close> is the transaction that \<^verbatim>\<open>outTr[r]\<close> points to, if any, and
  \<open>rcrOf\<close> its read-conflict ranges. \<open>building b0 b\<close> says that \<open>b\<close> is a state of
  \<^verbatim>\<open>addTransaction\<close> entered with the builder \<open>b0\<close>: each request holds the
  transactions it held in \<open>b0\<close>, followed by the one \<^verbatim>\<open>outTr\<close> points to, if there is
  one.
\<close>

definition pendingOf :: "ResolutionRequestBuilder \<Rightarrow> nat \<Rightarrow> CommitTransactionRef option" where
  "pendingOf b r =
     (case outTr b ! r of None \<Rightarrow> None | Some i \<Rightarrow> Some (req_transactions (requests b ! r) ! i))"

definition rcrOf :: "CommitTransactionRef option \<Rightarrow> KeyRangeRef list" where
  "rcrOf p = (case p of None \<Rightarrow> [] | Some tr \<Rightarrow> read_conflict_ranges tr)"

definition building :: "ResolutionRequestBuilder \<Rightarrow> ResolutionRequestBuilder \<Rightarrow> bool" where
  "building b0 b \<longleftrightarrow>
     length (requests b) = length (requests b0) \<and> length (outTr b) = length (requests b0)
     \<and> (\<forall>r < length (requests b0).
          case outTr b ! r of
            None \<Rightarrow> req_transactions (requests b ! r) = req_transactions (requests b0 ! r)
          | Some i \<Rightarrow> i = length (req_transactions (requests b0 ! r))
                     \<and> (\<exists>x. req_transactions (requests b ! r)
                               = req_transactions (requests b0 ! r) @ [x]))"

text \<open>
  \<open>built b txs\<close> says that the builder \<open>b\<close> is what adding the transactions \<open>txs\<close>,
  given as \<^verbatim>\<open>addTransaction\<close> left them, to a builder with empty requests gives:
  there is a row of both maps for each transaction; request \<open>r\<close> holds one transaction
  for each row of \<^verbatim>\<open>transactionResolverMap\<close> that contains \<open>r\<close>, in order; and the
  transaction that request \<open>r\<close> holds for transaction \<open>t\<close> has as read-conflict ranges
  those of \<open>t\<close> at the positions recorded in \<^verbatim>\<open>txReadConflictRangeIndexMap[t][r]\<close>.
\<close>

definition built :: "ResolutionRequestBuilder \<Rightarrow> CommitTransactionRequest list \<Rightarrow> bool" where
  "built b txs \<longleftrightarrow>
     length (transactionResolverMap b) = length txs
     \<and> length (txReadConflictRangeIndexMap b) = length txs
     \<and> (\<forall>r < length (requests b).
          length (req_transactions (requests b ! r))
            = indexOnResolver (transactionResolverMap b) r (length txs))
     \<and> (\<forall>t < length txs.
          distinct (transactionResolverMap b ! t)
          \<and> length (txReadConflictRangeIndexMap b ! t) = length (requests b)
          \<and> (\<forall>r \<in> set (transactionResolverMap b ! t).
                r < length (requests b)
                \<and> read_conflict_ranges
                      (req_transactions (requests b ! r) ! indexOnResolver (transactionResolverMap b) r t)
                    = map ((!) (read_conflict_ranges (transaction (txs ! t))))
                        (txReadConflictRangeIndexMap b ! t ! r)
                \<and> (\<forall>j \<in> set (txReadConflictRangeIndexMap b ! t ! r).
                      j < length (read_conflict_ranges (transaction (txs ! t))))))"

section \<open>Properties of the GRV proxy\<close>

subsection \<open>Helper facts about the budget\<close>

lemma updateBudget_budget_nonneg:
  "0 \<le> START_TRANSACTION_MAX_EMPTY_QUEUE_BUDGET K \<Longrightarrow> 0 \<le> budget (updateBudget ops K t n q e st)"
  by (simp add: updateBudget_def Let_def)

lemma updateBudget_budget_capped:
  "budget (updateBudget ops K t n True e st) \<le> START_TRANSACTION_MAX_EMPTY_QUEUE_BUDGET K"
  by (simp add: updateBudget_def Let_def)

lemma reset_budget: "budget (reset ops K t st) = budget st"
  by (simp add: reset_def Let_def split: prod.splits)

lemma disable_budget: "budget (disable ops st) = budget st"
  by (simp add: disable_def)

lemma setRate_budget: "setRate ops t r st = Inr st' \<Longrightarrow> budget st' = budget st"
  by (auto simp: setRate_def split: if_splits)

lemma iteration_normalRateInfo:
  "\<exists>n e st. normalRateInfo (transactionStarter_iteration ops K t S)
      = updateBudget ops K t n
          (systemQueue (queues (transactionStarter_iteration ops K t S)) = []
           \<and> defaultQueue (queues (transactionStarter_iteration ops K t S)) = []) e st"
  unfolding transactionStarter_iteration_def Let_def by auto

lemma iteration_batchRateInfo:
  "\<exists>n e st. batchRateInfo (transactionStarter_iteration ops K t S)
      = updateBudget ops K t n
          (systemQueue (queues (transactionStarter_iteration ops K t S)) = []
           \<and> defaultQueue (queues (transactionStarter_iteration ops K t S)) = []
           \<and> batchQueue (queues (transactionStarter_iteration ops K t S)) = []) e st"
  unfolding transactionStarter_iteration_def Let_def by auto

text \<open>
  The narrowing of \<^verbatim>\<open>req.transactionCount\<close> to \<^verbatim>\<open>int\<close>: a request for 3000000000
  transactions is read as a negative count, passes \<^verbatim>\<open>canStart\<close> and is started; the
  queues are then empty and the batch budget is cut to the cap.
\<close>

lemma narrowed_count_is_started:
  "defaultQueue (queues (transactionStarter_iteration steadySmoother exampleKnobs 1 hugeStarter)) = []
   \<and> sint (fst (transactionsStarted
         (queues (transactionStarter_iteration steadySmoother exampleKnobs 1 hugeStarter))))
       = - 1294967296
   \<and> budget (batchRateInfo (transactionStarter_iteration steadySmoother exampleKnobs 1 hugeStarter)) = 10"
  by (simp add: transactionStarter_iteration_def hugeStarter_def blockedStarter_def
      drainQueues.simps reset_def rate12_def steadySmoother_def exampleKnobs_def emptyLocals_def
      freshLocals_def pickQueue_def hugeRequest_def canStart_def updateBudget_def admit_def
      addAt_def pushAt_def pop_front_def Let_def)

subsection \<open>C6: an idle update of the budget\<close>

text \<open>
  C6, as stated: \<^verbatim>\<open>updateBudget(0, true, 0)\<close> leaves every rate state unchanged. It does
  not: a state whose budget grew past the empty-queue cap while requests were waiting
  (\<open>accumulated\<close>, budget 12 against a cap of 10) has its budget cut to the cap.
\<close>

theorem updateBudget_idle_not_noop:
  "budget accumulated = 12
   \<and> budget (updateBudget steadySmoother exampleKnobs 1 0 True 0 accumulated) = 10"
  by (simp add: accumulated_def updateBudget_def reset_def rate12_def steadySmoother_def
      exampleKnobs_def)

text \<open>
  C6, amended: on a state whose budget already lies between 0 and the empty-queue cap,
  \<^verbatim>\<open>updateBudget(0, true, 0)\<close> leaves rate, limit, budget, the disabled flag and the
  smoothed rate unchanged and hands a delta of 0 to the smoothed-released stream; and for
  every state and every elapsed duration, \<^verbatim>\<open>updateBudget(0, true, elapsed)\<close> leaves the
  budget at or below the empty-queue cap.
\<close>

theorem updateBudget_idle:
  "(0 \<le> budget st \<and> budget st \<le> START_TRANSACTION_MAX_EMPTY_QUEUE_BUDGET K \<longrightarrow>
      updateBudget ops K t 0 True 0 st
        = st\<lparr>smoothReleased := smoother_addDelta ops 0 t (smoothReleased st)\<rparr>)
   \<and> budget (updateBudget ops K t 0 True elapsed st) \<le> START_TRANSACTION_MAX_EMPTY_QUEUE_BUDGET K"
  by (simp add: updateBudget_def Let_def)

theorem updateBudget_idle_witness:
  "0 \<le> budget (rate12\<lparr>budget := 5\<rparr>)
   \<and> budget (rate12\<lparr>budget := 5\<rparr>) \<le> START_TRANSACTION_MAX_EMPTY_QUEUE_BUDGET exampleKnobs
   \<and> updateBudget steadySmoother exampleKnobs 1 0 True 0 (rate12\<lparr>budget := 5\<rparr>)
       = rate12\<lparr>budget := 5\<rparr>
   \<and> budget (updateBudget steadySmoother exampleKnobs 1 0 True 7 (rate12\<lparr>budget := 5\<rparr>)) \<le> 10"
  using updateBudget_idle [of "rate12\<lparr>budget := 5\<rparr>" exampleKnobs steadySmoother 1 7]
  by (simp add: rate12_def exampleKnobs_def steadySmoother_def)

subsection \<open>C7: the budget invariant\<close>

text \<open>
  C7, as stated: the budget is at most the empty-queue cap whenever the queue of that
  priority is empty. After the iteration below the batch queue is empty, yet the batch
  budget is 12 against a cap of 10: a default-priority request is still waiting, so the
  flag passed to \<^verbatim>\<open>updateBudget\<close> for the batch priority is false.
\<close>

theorem budget_above_cap_with_empty_batch_queue:
  "batchQueue (queues (transactionStarter_iteration steadySmoother exampleKnobs 1 blockedStarter)) = []
   \<and> budget (batchRateInfo (transactionStarter_iteration steadySmoother exampleKnobs 1 blockedStarter)) = 12
   \<and> START_TRANSACTION_MAX_EMPTY_QUEUE_BUDGET exampleKnobs = 10"
  by (simp add: transactionStarter_iteration_def blockedStarter_def drainQueues.simps reset_def
      rate12_def steadySmoother_def exampleKnobs_def emptyLocals_def freshLocals_def pickQueue_def
      bigDefaultRequest_def canStart_def updateBudget_def Let_def)

text \<open>
  C7, amended: with a non-negative empty-queue cap, the budget is 0 after construction,
  stays non-negative under \<^verbatim>\<open>reset\<close>, \<^verbatim>\<open>disable\<close> and \<^verbatim>\<open>setRate\<close> (which leave it as
  it is; \<^verbatim>\<open>canStart\<close> only reads the state) and is non-negative after every
  \<^verbatim>\<open>updateBudget\<close>; every \<^verbatim>\<open>updateBudget\<close> called with the queue-empty flag set leaves
  the budget at or below the cap. In the batch loop the flag is set for the normal
  priority when the system and default queues are both empty, and for the batch priority
  when all three queues are empty, so after an iteration the normal budget is within the
  cap if the first two queues are empty and the batch budget is within the cap if all
  three are.
\<close>

theorem budget_invariant:
  assumes "0 \<le> START_TRANSACTION_MAX_EMPTY_QUEUE_BUDGET K"
  shows "budget (GrvTransactionRateInfo_init fresh r0) = 0
    \<and> (0 \<le> budget st \<longrightarrow>
         0 \<le> budget (reset ops K t st) \<and> 0 \<le> budget (disable ops st)
         \<and> (\<forall>st'. setRate ops t r st = Inr st' \<longrightarrow> 0 \<le> budget st'))
    \<and> 0 \<le> budget (updateBudget ops K t n q e st)
    \<and> budget (updateBudget ops K t n True e st) \<le> START_TRANSACTION_MAX_EMPTY_QUEUE_BUDGET K
    \<and> 0 \<le> budget (normalRateInfo (transactionStarter_iteration ops K t S))
    \<and> 0 \<le> budget (batchRateInfo (transactionStarter_iteration ops K t S))
    \<and> (systemQueue (queues (transactionStarter_iteration ops K t S)) = []
        \<and> defaultQueue (queues (transactionStarter_iteration ops K t S)) = []
        \<longrightarrow> budget (normalRateInfo (transactionStarter_iteration ops K t S))
              \<le> START_TRANSACTION_MAX_EMPTY_QUEUE_BUDGET K)
    \<and> (systemQueue (queues (transactionStarter_iteration ops K t S)) = []
        \<and> defaultQueue (queues (transactionStarter_iteration ops K t S)) = []
        \<and> batchQueue (queues (transactionStarter_iteration ops K t S)) = []
        \<longrightarrow> budget (batchRateInfo (transactionStarter_iteration ops K t S))
              \<le> START_TRANSACTION_MAX_EMPTY_QUEUE_BUDGET K)"
proof -
  let ?S' = "transactionStarter_iteration ops K t S"
  obtain n1 e1 st1 where N: "normalRateInfo ?S'
      = updateBudget ops K t n1 (systemQueue (queues ?S') = [] \<and> defaultQueue (queues ?S') = []) e1 st1"
    using iteration_normalRateInfo by blast
  obtain n2 e2 st2 where B: "batchRateInfo ?S'
      = updateBudget ops K t n2 (systemQueue (queues ?S') = [] \<and> defaultQueue (queues ?S') = []
          \<and> batchQueue (queues ?S') = []) e2 st2"
    using iteration_batchRateInfo by blast
  have a: "budget (GrvTransactionRateInfo_init fresh r0) = 0"
    by (simp add: GrvTransactionRateInfo_init_def)
  have b: "0 \<le> budget st \<longrightarrow>
         0 \<le> budget (reset ops K t st) \<and> 0 \<le> budget (disable ops st)
         \<and> (\<forall>st'. setRate ops t r st = Inr st' \<longrightarrow> 0 \<le> budget st')"
    by (auto simp: reset_budget disable_budget dest: setRate_budget)
  have c: "0 \<le> budget (updateBudget ops K t n q e st)"
    using assms by (rule updateBudget_budget_nonneg)
  have d: "budget (updateBudget ops K t n True e st) \<le> START_TRANSACTION_MAX_EMPTY_QUEUE_BUDGET K"
    by (rule updateBudget_budget_capped)
  have e: "0 \<le> budget (normalRateInfo ?S')"
    unfolding N using assms by (rule updateBudget_budget_nonneg)
  have f: "0 \<le> budget (batchRateInfo ?S')"
    unfolding B using assms by (rule updateBudget_budget_nonneg)
  have g: "systemQueue (queues ?S') = [] \<and> defaultQueue (queues ?S') = []
        \<longrightarrow> budget (normalRateInfo ?S') \<le> START_TRANSACTION_MAX_EMPTY_QUEUE_BUDGET K"
  proof
    assume q: "systemQueue (queues ?S') = [] \<and> defaultQueue (queues ?S') = []"
    have "budget (updateBudget ops K t n1 True e1 st1) \<le> START_TRANSACTION_MAX_EMPTY_QUEUE_BUDGET K"
      by (rule updateBudget_budget_capped)
    with N q show "budget (normalRateInfo ?S') \<le> START_TRANSACTION_MAX_EMPTY_QUEUE_BUDGET K"
      by simp
  qed
  have h: "systemQueue (queues ?S') = [] \<and> defaultQueue (queues ?S') = []
        \<and> batchQueue (queues ?S') = []
        \<longrightarrow> budget (batchRateInfo ?S') \<le> START_TRANSACTION_MAX_EMPTY_QUEUE_BUDGET K"
  proof
    assume q: "systemQueue (queues ?S') = [] \<and> defaultQueue (queues ?S') = []
        \<and> batchQueue (queues ?S') = []"
    have "budget (updateBudget ops K t n2 True e2 st2) \<le> START_TRANSACTION_MAX_EMPTY_QUEUE_BUDGET K"
      by (rule updateBudget_budget_capped)
    with B q show "budget (batchRateInfo ?S') \<le> START_TRANSACTION_MAX_EMPTY_QUEUE_BUDGET K"
      by simp
  qed
  from a b c d e f g h show ?thesis by blast
qed

theorem budget_invariant_witness:
  "0 \<le> START_TRANSACTION_MAX_EMPTY_QUEUE_BUDGET exampleKnobs
   \<and> 0 \<le> budget accumulated
   \<and> setRate steadySmoother 1 3 accumulated = Inr (accumulated\<lparr>rate := 3, smoothRate := 3\<rparr>)
   \<and> 0 \<le> budget (accumulated\<lparr>rate := 3, smoothRate := 3\<rparr>)
   \<and> 0 \<le> budget (reset steadySmoother exampleKnobs 1 accumulated)
   \<and> budget (updateBudget steadySmoother exampleKnobs 1 4 True 1 accumulated) \<le> 10
   \<and> systemQueue (queues (transactionStarter_iteration steadySmoother exampleKnobs 1 idleStarter)) = []
   \<and> defaultQueue (queues (transactionStarter_iteration steadySmoother exampleKnobs 1 idleStarter)) = []
   \<and> batchQueue (queues (transactionStarter_iteration steadySmoother exampleKnobs 1 idleStarter)) = []
   \<and> budget (normalRateInfo (transactionStarter_iteration steadySmoother exampleKnobs 1 idleStarter)) \<le> 10
   \<and> budget (batchRateInfo (transactionStarter_iteration steadySmoother exampleKnobs 1 idleStarter)) \<le> 10"
proof -
  have cap: "0 \<le> START_TRANSACTION_MAX_EMPTY_QUEUE_BUDGET exampleKnobs"
    by (simp add: exampleKnobs_def)
  have acc: "accumulated = \<lparr>rate = 12, limit = 24, budget = 12, disabled = False,
      smoothRate = 12, smoothReleased = 0\<rparr>"
    by (simp add: accumulated_def updateBudget_def reset_def rate12_def steadySmoother_def
        exampleKnobs_def)
  have sr: "setRate steadySmoother 1 3 accumulated = Inr (accumulated\<lparr>rate := 3, smoothRate := 3\<rparr>)"
    by (simp add: acc setRate_def steadySmoother_def)
  have q: "queues (transactionStarter_iteration steadySmoother exampleKnobs 1 idleStarter) = emptyLocals"
    by (simp add: transactionStarter_iteration_def idleStarter_def drainQueues.simps emptyLocals_def
        freshLocals_def pickQueue_def exampleKnobs_def Let_def)
  have capv: "START_TRANSACTION_MAX_EMPTY_QUEUE_BUDGET exampleKnobs = 10"
    by (simp add: exampleKnobs_def)
  have b: "0 \<le> budget accumulated"
    by (simp add: acc)
  note inv = budget_invariant [OF cap, of 0 12 accumulated steadySmoother 1 3 4 True 1 idleStarter]
  from inv b sr have "0 \<le> budget (accumulated\<lparr>rate := 3, smoothRate := 3\<rparr>)
      \<and> 0 \<le> budget (reset steadySmoother exampleKnobs 1 accumulated)"
    by blast
  moreover from inv have "budget (updateBudget steadySmoother exampleKnobs 1 4 True 1 accumulated) \<le> 10"
    unfolding capv by blast
  moreover have e: "systemQueue (queues (transactionStarter_iteration steadySmoother exampleKnobs 1 idleStarter)) = []
      \<and> defaultQueue (queues (transactionStarter_iteration steadySmoother exampleKnobs 1 idleStarter)) = []
      \<and> batchQueue (queues (transactionStarter_iteration steadySmoother exampleKnobs 1 idleStarter)) = []"
    by (simp add: q emptyLocals_def)
  moreover from inv e
  have "budget (normalRateInfo (transactionStarter_iteration steadySmoother exampleKnobs 1 idleStarter)) \<le> 10
      \<and> budget (batchRateInfo (transactionStarter_iteration steadySmoother exampleKnobs 1 idleStarter)) \<le> 10"
    unfolding capv by blast
  ultimately show ?thesis
    using cap b sr by blast
qed

subsection \<open>C8: throttling of batch-priority requests at intake\<close>

text \<open>
  C8, as stated: every batch-priority request that arrives while the batch rate is at or
  below one transaction per second shared among the GRV proxies is answered with
  \<^verbatim>\<open>batch_transaction_throttled\<close>. When the in-flight count is above the queue-size cap
  the overflow branch runs first: the request is answered with version 1 and
  \<open>locked = true\<close>, not with the error.
\<close>

theorem batch_request_overflow_not_throttled:
  "priority batchRequest = BATCH
   \<and> fst (queueGetReadVersionRequests exampleKnobs 0 1 0 batchRequest floodedIntake)
       = Some (SendReply \<lparr>reply_version = 1, reply_locked = True\<rparr>)"
  by (simp add: queueGetReadVersionRequests_def floodedIntake_def quietIntake_def exampleKnobs_def
      batchRequest_def)

text \<open>
  C8, amended: a batch-priority request that arrives while the in-flight count is within
  the queue-size cap and \<^verbatim>\<open>batchRateInfo->rate\<close> is at most \<open>1 / max(peer count, 1)\<close> is
  answered at once with \<^verbatim>\<open>batch_transaction_throttled\<close>, which carries no read version,
  and none of the three queues changes.
\<close>

theorem batch_request_throttled:
  assumes "priority req = BATCH"
    and "\<not> txnRequestIn S - txnRequestOut S > START_TRANSACTION_MAX_QUEUE_SIZE K"
    and "batchRate \<le> 1 / real_of_int (max (int grvProxies_size) 1)"
  shows "fst (queueGetReadVersionRequests K batchRate grvProxies_size timerDelay req S)
           = Some (SendError batch_transaction_throttled)
    \<and> systemQueue (snd (queueGetReadVersionRequests K batchRate grvProxies_size timerDelay req S))
        = systemQueue S
    \<and> defaultQueue (snd (queueGetReadVersionRequests K batchRate grvProxies_size timerDelay req S))
        = defaultQueue S
    \<and> batchQueue (snd (queueGetReadVersionRequests K batchRate grvProxies_size timerDelay req S))
        = batchQueue S"
  using assms by (simp add: queueGetReadVersionRequests_def Let_def)

theorem batch_request_throttled_witness:
  "priority batchRequest = BATCH
   \<and> \<not> txnRequestIn quietIntake - txnRequestOut quietIntake > START_TRANSACTION_MAX_QUEUE_SIZE exampleKnobs
   \<and> (1 / 4 :: real) \<le> 1 / real_of_int (max (int 3) 1)
   \<and> fst (queueGetReadVersionRequests exampleKnobs (1 / 4) 3 0 batchRequest quietIntake)
       = Some (SendError batch_transaction_throttled)
   \<and> batchQueue (snd (queueGetReadVersionRequests exampleKnobs (1 / 4) 3 0 batchRequest quietIntake)) = []"
proof -
  have p: "priority batchRequest = BATCH" by (simp add: batchRequest_def)
  have c: "\<not> txnRequestIn quietIntake - txnRequestOut quietIntake
              > START_TRANSACTION_MAX_QUEUE_SIZE exampleKnobs"
    by (simp add: quietIntake_def exampleKnobs_def)
  have r: "(1 / 4 :: real) \<le> 1 / real_of_int (max (int 3) 1)" by simp
  show ?thesis
    using batch_request_throttled [OF p c r, of 0] p c r by (simp add: quietIntake_def)
qed

subsection \<open>C9: the queue-size cap at intake\<close>

text \<open>
  C9, as stated: a request that arrives while the in-flight count exceeds the queue-size
  cap is rejected with an error reply. The answer is an ordinary reply, sent with
  \<^verbatim>\<open>reply.send\<close>: version 1 and \<open>locked = true\<close>.
\<close>

theorem overflow_reply_is_not_an_error:
  "txnRequestIn floodedIntake - txnRequestOut floodedIntake > START_TRANSACTION_MAX_QUEUE_SIZE exampleKnobs
   \<and> fst (queueGetReadVersionRequests exampleKnobs 12 1 0 bigDefaultRequest floodedIntake)
       = Some (SendReply \<lparr>reply_version = 1, reply_locked = True\<rparr>)
   \<and> \<not> isErrorResponse (SendReply \<lparr>reply_version = 1, reply_locked = True\<rparr>)"
  by (simp add: queueGetReadVersionRequests_def floodedIntake_def quietIntake_def exampleKnobs_def)

text \<open>
  C9, amended: a request that arrives while the in-flight count (requests in minus
  requests out) exceeds \<^verbatim>\<open>START_TRANSACTION_MAX_QUEUE_SIZE\<close> is answered at once with an
  ordinary reply carrying version 1 and \<open>locked = true\<close>; the error counter goes up by
  one and nothing else changes, so the request enters no queue.
\<close>

theorem overflow_reply:
  assumes "txnRequestIn S - txnRequestOut S > START_TRANSACTION_MAX_QUEUE_SIZE K"
  shows "queueGetReadVersionRequests K batchRate grvProxies_size timerDelay req S
           = (Some (SendReply \<lparr>reply_version = 1, reply_locked = True\<rparr>),
              S\<lparr>txnRequestErrors := txnRequestErrors S + 1\<rparr>)"
  using assms by (simp add: queueGetReadVersionRequests_def)

theorem overflow_reply_witness:
  "txnRequestIn floodedIntake - txnRequestOut floodedIntake > START_TRANSACTION_MAX_QUEUE_SIZE exampleKnobs
   \<and> queueGetReadVersionRequests exampleKnobs 12 1 0 batchRequest floodedIntake
       = (Some (SendReply \<lparr>reply_version = 1, reply_locked = True\<rparr>),
          floodedIntake\<lparr>txnRequestErrors := 1\<rparr>)"
proof -
  have h: "txnRequestIn floodedIntake - txnRequestOut floodedIntake
             > START_TRANSACTION_MAX_QUEUE_SIZE exampleKnobs"
    by (simp add: floodedIntake_def quietIntake_def exampleKnobs_def)
  show ?thesis
    using overflow_reply [OF h, of 12 1 0 batchRequest] h
    by (simp add: floodedIntake_def quietIntake_def)
qed
section \<open>Properties of the commit proxy\<close>

subsection \<open>The assignments to the committed version\<close>

lemma proxy_write_mono: "proxy_write p q \<Longrightarrow> committedVersion p \<le> committedVersion q"
  by (induction rule: proxy_write.induct) simp_all

lemma proxy_writes_mono: "rtranclp proxy_write p q \<Longrightarrow> committedVersion p \<le> committedVersion q"
  by (induction rule: rtranclp_induct) (auto dest: proxy_write_mono)

subsection \<open>C2: the MVCC window guard\<close>

lemma mvccGuard_within_window:
  assumes contract: "\<forall>threshold q. whenAtLeast threshold q \<longrightarrow> threshold \<le> committedVersion q"
  shows "list_all yield_ok evs \<Longrightarrow> mvccGuard K whenAtLeast cv evs p = Some p' \<Longrightarrow>
   \<not> committedVersion p' < cv - MAX_READ_TRANSACTION_LIFE_VERSIONS K"
proof (induction evs arbitrary: p)
  case Nil
  then show ?case by (simp split: if_splits)
next
  case (Cons ev evs)
  show ?case
  proof (cases "committedVersion p < cv - MAX_READ_TRANSACTION_LIFE_VERSIONS K")
    case False
    with Cons.prems show ?thesis by simp
  next
    case True
    note lag = this
    from Cons.prems(1) have ok: "yield_ok ev" and oks: "list_all yield_ok evs"
      by simp_all
    show ?thesis
    proof (cases ev)
      case (CommittedVersionReached fired resumed)
      show ?thesis
      proof (cases "whenAtLeast (cv - MAX_READ_TRANSACTION_LIFE_VERSIONS K) fired")
        case True
        with Cons.prems(2) lag CommittedVersionReached have e: "p' = resumed" by simp
        from contract True have "cv - MAX_READ_TRANSACTION_LIFE_VERSIONS K \<le> committedVersion fired"
          by blast
        moreover from ok CommittedVersionReached
        have "committedVersion fired \<le> committedVersion resumed"
          by (simp add: proxy_writes_mono)
        ultimately show ?thesis using e by simp
      next
        case False
        with Cons.prems(2) lag CommittedVersionReached
        have "mvccGuard K whenAtLeast cv evs p = Some p'" by simp
        with oks show ?thesis by (rule Cons.IH)
      qed
    next
      case (ProxiesChanged resumed)
      with Cons.prems(2) lag have "mvccGuard K whenAtLeast cv evs resumed = Some p'" by simp
      with oks show ?thesis by (rule Cons.IH)
    next
      case (MasterReply v arrived afterDelay)
      show ?thesis
      proof (cases "committedVersion (refreshFromMaster v arrived)
                      < cv - MAX_READ_TRANSACTION_LIFE_VERSIONS K")
        case True
        with Cons.prems(2) lag MasterReply
        have "mvccGuard K whenAtLeast cv evs afterDelay = Some p'"
          by (simp add: Let_def)
        with oks show ?thesis by (rule Cons.IH)
      next
        case False
        with Cons.prems(2) lag MasterReply
        have "mvccGuard K whenAtLeast cv evs (refreshFromMaster v arrived) = Some p'"
          by (simp add: Let_def)
        with oks show ?thesis by (rule Cons.IH)
      qed
    qed
  qed
qed

lemma mvccGuard_no_lag:
  "\<not> committedVersion p < cv - MAX_READ_TRANSACTION_LIFE_VERSIONS K \<Longrightarrow>
   mvccGuard K whenAtLeast cv evs p = Some p"
  by (cases evs) simp_all

text \<open>
  C2: a batch is pushed to the log system only with a committed version that lags its
  commit version by at most \<^verbatim>\<open>MAX_READ_TRANSACTION_LIFE_VERSIONS\<close>. The bound rests on
  the tests of the guard loop, on the limit that the loop hands to \<^verbatim>\<open>whenAtLeast\<close>
  (whose future is ready only once the committed version has reached the limit) and on
  the assignments of the commit proxy, which never lower the committed version while the
  actor yields. A batch within the window is pushed without waiting. While the lag is
  larger the batch is not pushed: the actor waits, and
  \<^item> when the future of \<^verbatim>\<open>whenAtLeast\<close> is ready, it yields and pushes with the
    committed version it then finds; when it is not ready, it keeps waiting;
  \<^item> on a change of the proxy list it tests the lag again;
  \<^item> on the master's answer it takes over a larger version with the lock state and
    metadata version, pushes if the lag has come within the window, and otherwise waits
    for the spin delay and tests again.
  The committed version passed to \<^verbatim>\<open>push\<close> is the one read when the guard loop is left.
\<close>

theorem push_within_mvcc_window:
  assumes "\<forall>threshold q. whenAtLeast threshold q \<longrightarrow> threshold \<le> committedVersion q"
    and "list_all yield_ok evs"
  shows "(postResolution_push K whenAtLeast self evs p = Some push \<longrightarrow>
            push_version push = commitVersion self
            \<and> push_version push - push_committedVersion push
                \<le> MAX_READ_TRANSACTION_LIFE_VERSIONS K)
    \<and> (commitVersion self - committedVersion p \<le> MAX_READ_TRANSACTION_LIFE_VERSIONS K \<longrightarrow>
         postResolution_push K whenAtLeast self evs p
           = Some \<lparr>push_prevVersion = prevVersion self, push_version = commitVersion self,
                   push_committedVersion = committedVersion p,
                   push_minKnownCommittedVersion = minKnownCommittedVersion p\<rparr>)
    \<and> (commitVersion self - committedVersion p > MAX_READ_TRANSACTION_LIFE_VERSIONS K \<longrightarrow>
         postResolution_push K whenAtLeast self [] p = None
         \<and> postResolution_push K whenAtLeast self (CommittedVersionReached fired resumed # rest) p
             = (if whenAtLeast (commitVersion self - MAX_READ_TRANSACTION_LIFE_VERSIONS K) fired
                then Some \<lparr>push_prevVersion = prevVersion self, push_version = commitVersion self,
                          push_committedVersion = committedVersion resumed,
                          push_minKnownCommittedVersion = minKnownCommittedVersion resumed\<rparr>
                else postResolution_push K whenAtLeast self rest p)
         \<and> postResolution_push K whenAtLeast self (ProxiesChanged resumed # rest) p
             = postResolution_push K whenAtLeast self rest resumed
         \<and> postResolution_push K whenAtLeast self (MasterReply v arrived afterDelay # rest) p
             = (if raw_version v > committedVersion arrived
                then if commitVersion self - raw_version v \<le> MAX_READ_TRANSACTION_LIFE_VERSIONS K
                     then Some \<lparr>push_prevVersion = prevVersion self,
                               push_version = commitVersion self,
                               push_committedVersion = raw_version v,
                               push_minKnownCommittedVersion = minKnownCommittedVersion arrived\<rparr>
                     else postResolution_push K whenAtLeast self rest afterDelay
                else if commitVersion self - committedVersion arrived
                          \<le> MAX_READ_TRANSACTION_LIFE_VERSIONS K
                     then Some \<lparr>push_prevVersion = prevVersion self,
                               push_version = commitVersion self,
                               push_committedVersion = committedVersion arrived,
                               push_minKnownCommittedVersion = minKnownCommittedVersion arrived\<rparr>
                     else postResolution_push K whenAtLeast self rest afterDelay))"
proof -
  let ?M = "MAX_READ_TRANSACTION_LIFE_VERSIONS K"
  have safe: "push_version push = commitVersion self
      \<and> push_version push - push_committedVersion push \<le> ?M"
    if h: "postResolution_push K whenAtLeast self evs p = Some push"
  proof -
    from h obtain p' where g: "mvccGuard K whenAtLeast (commitVersion self) evs p = Some p'"
      and e: "push = \<lparr>push_prevVersion = prevVersion self, push_version = commitVersion self,
                       push_committedVersion = committedVersion p',
                       push_minKnownCommittedVersion = minKnownCommittedVersion p'\<rparr>"
      by (auto simp: postResolution_push_def)
    from mvccGuard_within_window [OF assms g] e show ?thesis by simp
  qed
  have now: "postResolution_push K whenAtLeast self evs p
           = Some \<lparr>push_prevVersion = prevVersion self, push_version = commitVersion self,
                   push_committedVersion = committedVersion p,
                   push_minKnownCommittedVersion = minKnownCommittedVersion p\<rparr>"
    if "commitVersion self - committedVersion p \<le> ?M"
  proof -
    from that have "\<not> committedVersion p < commitVersion self - ?M" by simp
    then show ?thesis by (simp add: postResolution_push_def mvccGuard_no_lag)
  qed
  have wait: "postResolution_push K whenAtLeast self [] p = None
         \<and> postResolution_push K whenAtLeast self (CommittedVersionReached fired resumed # rest) p
             = (if whenAtLeast (commitVersion self - ?M) fired
                then Some \<lparr>push_prevVersion = prevVersion self, push_version = commitVersion self,
                          push_committedVersion = committedVersion resumed,
                          push_minKnownCommittedVersion = minKnownCommittedVersion resumed\<rparr>
                else postResolution_push K whenAtLeast self rest p)
         \<and> postResolution_push K whenAtLeast self (ProxiesChanged resumed # rest) p
             = postResolution_push K whenAtLeast self rest resumed
         \<and> postResolution_push K whenAtLeast self (MasterReply v arrived afterDelay # rest) p
             = (if raw_version v > committedVersion arrived
                then if commitVersion self - raw_version v \<le> ?M
                     then Some \<lparr>push_prevVersion = prevVersion self,
                               push_version = commitVersion self,
                               push_committedVersion = raw_version v,
                               push_minKnownCommittedVersion = minKnownCommittedVersion arrived\<rparr>
                     else postResolution_push K whenAtLeast self rest afterDelay
                else if commitVersion self - committedVersion arrived \<le> ?M
                     then Some \<lparr>push_prevVersion = prevVersion self,
                               push_version = commitVersion self,
                               push_committedVersion = committedVersion arrived,
                               push_minKnownCommittedVersion = minKnownCommittedVersion arrived\<rparr>
                     else postResolution_push K whenAtLeast self rest afterDelay)"
    if "commitVersion self - committedVersion p > ?M"
  proof -
    from that have lag: "committedVersion p < commitVersion self - ?M" by simp
    have 1: "postResolution_push K whenAtLeast self [] p = None"
      using lag by (simp add: postResolution_push_def)
    have 2: "postResolution_push K whenAtLeast self (CommittedVersionReached fired resumed # rest) p
             = (if whenAtLeast (commitVersion self - ?M) fired
                then Some \<lparr>push_prevVersion = prevVersion self, push_version = commitVersion self,
                          push_committedVersion = committedVersion resumed,
                          push_minKnownCommittedVersion = minKnownCommittedVersion resumed\<rparr>
                else postResolution_push K whenAtLeast self rest p)"
      using lag by (simp add: postResolution_push_def)
    have 3: "postResolution_push K whenAtLeast self (ProxiesChanged resumed # rest) p
             = postResolution_push K whenAtLeast self rest resumed"
      using lag by (simp add: postResolution_push_def)
    have 4: "postResolution_push K whenAtLeast self (MasterReply v arrived afterDelay # rest) p
             = (if raw_version v > committedVersion arrived
                then if commitVersion self - raw_version v \<le> ?M
                     then Some \<lparr>push_prevVersion = prevVersion self,
                               push_version = commitVersion self,
                               push_committedVersion = raw_version v,
                               push_minKnownCommittedVersion = minKnownCommittedVersion arrived\<rparr>
                     else postResolution_push K whenAtLeast self rest afterDelay
                else if commitVersion self - committedVersion arrived \<le> ?M
                     then Some \<lparr>push_prevVersion = prevVersion self,
                               push_version = commitVersion self,
                               push_committedVersion = committedVersion arrived,
                               push_minKnownCommittedVersion = minKnownCommittedVersion arrived\<rparr>
                     else postResolution_push K whenAtLeast self rest afterDelay)"
    proof (cases "committedVersion (refreshFromMaster v arrived) < commitVersion self - ?M")
      case True
      with lag have "postResolution_push K whenAtLeast self (MasterReply v arrived afterDelay # rest) p
          = postResolution_push K whenAtLeast self rest afterDelay"
        by (simp add: postResolution_push_def Let_def)
      with True show ?thesis
        by (auto simp: refreshFromMaster_def split: if_splits)
    next
      case False
      with lag have "postResolution_push K whenAtLeast self (MasterReply v arrived afterDelay # rest) p
          = Some \<lparr>push_prevVersion = prevVersion self, push_version = commitVersion self,
                   push_committedVersion = committedVersion (refreshFromMaster v arrived),
                   push_minKnownCommittedVersion
                     = minKnownCommittedVersion (refreshFromMaster v arrived)\<rparr>"
        by (simp add: postResolution_push_def Let_def mvccGuard_no_lag)
      with False show ?thesis
        by (auto simp: refreshFromMaster_def split: if_splits)
    qed
    from 1 2 3 4 show ?thesis by blast
  qed
  from safe now wait show ?thesis by blast
qed

theorem push_within_mvcc_window_witness:
  "list_all yield_ok guardEvents
   \<and> postResolution_push exampleKnobs notifiedAtLeast lateBatch guardEvents laggingProxy
       = Some \<lparr>push_prevVersion = 8999000, push_version = 9000000,
               push_committedVersion = 4500000, push_minKnownCommittedVersion = 900000\<rparr>
   \<and> (9000000 :: int) - 4500000 \<le> MAX_READ_TRANSACTION_LIFE_VERSIONS exampleKnobs
   \<and> commitVersion lateBatch - committedVersion laggingProxy
       > MAX_READ_TRANSACTION_LIFE_VERSIONS exampleKnobs
   \<and> postResolution_push exampleKnobs notifiedAtLeast lateBatch [] laggingProxy = None"
proof -
  have contract: "\<forall>threshold q. notifiedAtLeast threshold q \<longrightarrow> threshold \<le> committedVersion q"
    by (simp add: notifiedAtLeast_def)
  have "proxy_write (laggingProxy\<lparr>committedVersion := 4000000\<rparr>)
      ((laggingProxy\<lparr>committedVersion := 4000000\<rparr>)
         \<lparr>pcd_locked := False, metadataVersion := None, committedVersion := 4500000\<rparr>)"
    by (rule proxy_write.advance) simp
  then have "rtranclp proxy_write (laggingProxy\<lparr>committedVersion := 4000000\<rparr>)
      (laggingProxy\<lparr>committedVersion := 4500000\<rparr>)"
    by (simp add: laggingProxy_def)
  then have ok: "list_all yield_ok guardEvents"
    by (simp add: guardEvents_def)
  have run: "postResolution_push exampleKnobs notifiedAtLeast lateBatch guardEvents laggingProxy
       = Some \<lparr>push_prevVersion = 8999000, push_version = 9000000,
               push_committedVersion = 4500000, push_minKnownCommittedVersion = 900000\<rparr>"
    by (simp add: postResolution_push_def guardEvents_def lateBatch_def CommitBatchContext_init_def
        exampleKnobs_def laggingProxy_def refreshFromMaster_def notifiedAtLeast_def Let_def)
  have lag: "commitVersion lateBatch - committedVersion laggingProxy
       > MAX_READ_TRANSACTION_LIFE_VERSIONS exampleKnobs"
    by (simp add: lateBatch_def CommitBatchContext_init_def exampleKnobs_def laggingProxy_def)
  from push_within_mvcc_window [OF contract ok, where K = exampleKnobs and self = lateBatch
      and p = laggingProxy
      and push = "\<lparr>push_prevVersion = 8999000, push_version = 9000000,
        push_committedVersion = 4500000, push_minKnownCommittedVersion = 900000\<rparr>"] run lag ok
  show ?thesis by simp
qed

subsection \<open>C3: the committed version is reported before it is advanced\<close>

lemma reply_report_reachable:
  assumes "rtranclp proxy_write pcd resumed"
  shows "rtranclp proxy_write pcd (snd (reply_report self pcd resumed))"
proof -
  have step: "rtranclp proxy_write q
      (if commitVersion self > committedVersion q
       then q\<lparr>pcd_locked := lockedAfter self, metadataVersion := metadataVersionAfter self,
               committedVersion := commitVersion self\<rparr> else q)" for q
    by (auto intro: proxy_write.advance)
  show ?thesis
  proof (cases "commitVersion self \<ge> committedVersion pcd")
    case True
    from assms step [of resumed] have "rtranclp proxy_write pcd
      (if commitVersion self > committedVersion resumed
       then resumed\<lparr>pcd_locked := lockedAfter self, metadataVersion := metadataVersionAfter self,
               committedVersion := commitVersion self\<rparr> else resumed)"
      by (rule rtranclp_trans)
    with True show ?thesis by (auto simp: reply_report_def Let_def split: if_splits)
  next
    case False
    then show ?thesis by (simp add: reply_report_def Let_def)
  qed
qed

text \<open>
  C3: the assignments of the commit proxy never lower the local committed version
  (\<open>proxy_write\<close> collects them, and \<^verbatim>\<open>reply\<close> sets the version only to a commit
  version above the current value). In \<^verbatim>\<open>reply\<close>, with \<open>resumed\<close> the proxy's data as
  other actors left it while the report was in flight: a batch whose commit version is at
  least the committed version first sends \<^verbatim>\<open>ReportRawCommittedVersionRequest\<close> for that
  version, and whenever the local committed version is advanced, the actions taken are
  exactly the report of that version followed, after the master's answer, by the advance.
\<close>

theorem committedVersion_reported_before_advance:
  assumes "rtranclp proxy_write pcd resumed"
  shows "(rtranclp proxy_write p q \<longrightarrow> committedVersion p \<le> committedVersion q)
    \<and> rtranclp proxy_write pcd (snd (reply_report self pcd resumed))
    \<and> committedVersion pcd \<le> committedVersion (snd (reply_report self pcd resumed))
    \<and> (commitVersion self \<ge> committedVersion pcd \<longrightarrow>
         fst (reply_report self pcd resumed) \<noteq> []
         \<and> hd (fst (reply_report self pcd resumed))
             = Sent \<lparr>report_version = commitVersion self, report_locked = lockedAfter self,
                     report_metadataVersion = metadataVersionAfter self,
                     report_minKnownCommittedVersion = minKnownCommittedVersion pcd\<rparr>)
    \<and> (Advanced v \<in> set (fst (reply_report self pcd resumed)) \<longrightarrow>
         v = commitVersion self \<and> committedVersion resumed < v
         \<and> committedVersion (snd (reply_report self pcd resumed)) = v
         \<and> fst (reply_report self pcd resumed)
             = [Sent \<lparr>report_version = v, report_locked = lockedAfter self,
                      report_metadataVersion = metadataVersionAfter self,
                      report_minKnownCommittedVersion = minKnownCommittedVersion pcd\<rparr>,
                Advanced v])
    \<and> (Advanced (commitVersion self) \<notin> set (fst (reply_report self pcd resumed)) \<longrightarrow>
         snd (reply_report self pcd resumed) = pcd \<or> snd (reply_report self pcd resumed) = resumed)"
proof -
  have mono: "committedVersion pcd \<le> committedVersion resumed"
    using assms by (rule proxy_writes_mono)
  have a: "rtranclp proxy_write p q \<longrightarrow> committedVersion p \<le> committedVersion q"
    by (auto dest: proxy_writes_mono)
  have b: "rtranclp proxy_write pcd (snd (reply_report self pcd resumed))"
    using assms by (rule reply_report_reachable)
  have c: "committedVersion pcd \<le> committedVersion (snd (reply_report self pcd resumed))"
    using b by (rule proxy_writes_mono)
  have d: "commitVersion self \<ge> committedVersion pcd \<longrightarrow>
         fst (reply_report self pcd resumed) \<noteq> []
         \<and> hd (fst (reply_report self pcd resumed))
             = Sent \<lparr>report_version = commitVersion self, report_locked = lockedAfter self,
                     report_metadataVersion = metadataVersionAfter self,
                     report_minKnownCommittedVersion = minKnownCommittedVersion pcd\<rparr>"
    by (simp add: reply_report_def Let_def)
  have e: "Advanced v \<in> set (fst (reply_report self pcd resumed)) \<longrightarrow>
         v = commitVersion self \<and> committedVersion resumed < v
         \<and> committedVersion (snd (reply_report self pcd resumed)) = v
         \<and> fst (reply_report self pcd resumed)
             = [Sent \<lparr>report_version = v, report_locked = lockedAfter self,
                      report_metadataVersion = metadataVersionAfter self,
                      report_minKnownCommittedVersion = minKnownCommittedVersion pcd\<rparr>,
                Advanced v]"
    using mono by (auto simp: reply_report_def Let_def split: if_splits)
  have f: "Advanced (commitVersion self) \<notin> set (fst (reply_report self pcd resumed)) \<longrightarrow>
         snd (reply_report self pcd resumed) = pcd \<or> snd (reply_report self pcd resumed) = resumed"
    by (auto simp: reply_report_def Let_def split: if_splits)
  from a b c d e f show ?thesis by blast
qed

theorem committedVersion_reported_before_advance_witness:
  "rtranclp proxy_write laggingProxy (laggingProxy\<lparr>committedVersion := 3000000\<rparr>)
   \<and> committedVersion laggingProxy \<le> commitVersion lateBatch
   \<and> fst (reply_report lateBatch laggingProxy (laggingProxy\<lparr>committedVersion := 3000000\<rparr>))
       = [Sent \<lparr>report_version = 9000000, report_locked = False, report_metadataVersion = None,
                report_minKnownCommittedVersion = 900000\<rparr>,
          Advanced 9000000]
   \<and> committedVersion (snd (reply_report lateBatch laggingProxy
        (laggingProxy\<lparr>committedVersion := 3000000\<rparr>))) = 9000000"
proof -
  have "proxy_write laggingProxy
      (laggingProxy\<lparr>pcd_locked := False, metadataVersion := None, committedVersion := 3000000\<rparr>)"
    by (rule proxy_write.advance) (simp add: laggingProxy_def)
  then have w: "rtranclp proxy_write laggingProxy (laggingProxy\<lparr>committedVersion := 3000000\<rparr>)"
    by (simp add: laggingProxy_def)
  have le: "committedVersion laggingProxy \<le> commitVersion lateBatch"
    by (simp add: laggingProxy_def lateBatch_def CommitBatchContext_init_def)
  have adv: "Advanced 9000000
      \<in> set (fst (reply_report lateBatch laggingProxy (laggingProxy\<lparr>committedVersion := 3000000\<rparr>)))"
    by (simp add: reply_report_def Let_def laggingProxy_def lateBatch_def CommitBatchContext_init_def)
  from committedVersion_reported_before_advance [OF w, of laggingProxy laggingProxy lateBatch 9000000]
    adv w le
  show ?thesis
    by (simp add: laggingProxy_def lateBatch_def CommitBatchContext_init_def)
qed

subsection \<open>Helper facts about sequencing\<close>

lemma bindE_Inr [simp]: "bindE (Inr v) f = f v"
  by (simp add: bindE_def)

lemma bindE_Inl [simp]: "bindE (Inl e) f = Inl e"
  by (simp add: bindE_def)

lemma bindE_eq_Inr: "bindE x f = Inr y \<longleftrightarrow> (\<exists>v. x = Inr v \<and> f v = Inr y)"
  by (cases x) auto

lemma foldE_invariant:
  assumes "foldE f xs s = Inr s'" and "P s"
    and "\<And>x s s'. x \<in> set xs \<Longrightarrow> P s \<Longrightarrow> f x s = Inr s' \<Longrightarrow> P s'"
  shows "P s'"
  using assms
proof (induction xs arbitrary: s)
  case Nil
  then show ?case by simp
next
  case (Cons x xs)
  from Cons.prems(1) obtain s1 where 1: "f x s = Inr s1" and 2: "foldE f xs s1 = Inr s'"
    by (auto simp: bindE_eq_Inr)
  from Cons.prems(3) [OF _ Cons.prems(2) 1] have "P s1" by simp
  with 2 show ?case using Cons.prems(3) by (intro Cons.IH [of s1]) auto
qed

subsection \<open>The commit version carried by the requests\<close>

lemma getOutTransaction_versions:
  "getOutTransaction r snap b = Inr b' \<Longrightarrow> \<forall>rq \<in> set (requests b). req_version rq = v \<Longrightarrow>
   \<forall>rq \<in> set (requests b'). req_version rq = v"
  by (auto simp: getOutTransaction_def Let_def split: if_splits option.splits
      dest!: set_update_subset_insert [THEN subsetD])

lemma updateOut_versions:
  "updateOut r f b = Inr b' \<Longrightarrow> \<forall>rq \<in> set (requests b). req_version rq = v \<Longrightarrow>
   \<forall>rq \<in> set (requests b'). req_version rq = v"
  by (auto simp: updateOut_def Let_def split: if_splits option.splits
      dest!: set_update_subset_insert [THEN subsetD])

lemma onOutTransaction_versions:
  "onOutTransaction r snap f b = Inr b' \<Longrightarrow> \<forall>rq \<in> set (requests b). req_version rq = v \<Longrightarrow>
   \<forall>rq \<in> set (requests b'). req_version rq = v"
  unfolding onOutTransaction_def bindE_eq_Inr
  by (blast dest: getOutTransaction_versions updateOut_versions)

lemma set_update_all:
  assumes "\<forall>x \<in> set xs. P x" and "i < length xs \<Longrightarrow> P y"
  shows "\<forall>x \<in> set (xs[i := y]). P x"
proof (cases "i < length xs")
  case True
  with assms show ?thesis
    by (auto dest!: set_update_subset_insert [THEN subsetD])
next
  case False
  with assms(1) show ?thesis by (simp add: list_update_beyond)
qed

lemma addTxnStateTransaction_versions:
  assumes "addTxnStateTransaction snap r b = Inr b'"
    and "\<forall>rq \<in> set (requests b). req_version rq = v"
  shows "\<forall>rq \<in> set (requests b'). req_version rq = v"
proof -
  from assms(1) obtain b1 i where g: "getOutTransaction r snap b = Inr b1"
    and b': "b' = b1\<lparr>requests := (requests b1)[r := (requests b1 ! r)\<lparr>txnStateTransactions :=
                    txnStateTransactions (requests b1 ! r) @ [i]\<rparr>]\<rparr>"
    by (auto simp: addTxnStateTransaction_def bindE_eq_Inr split: option.splits)
  from getOutTransaction_versions [OF g assms(2)]
  have 1: "\<forall>rq \<in> set (requests b1). req_version rq = v" .
  have "\<forall>rq \<in> set ((requests b1)[r := (requests b1 ! r)\<lparr>txnStateTransactions :=
                    txnStateTransactions (requests b1 ! r) @ [i]\<rparr>]). req_version rq = v"
    by (rule set_update_all) (use 1 in auto)
  then show ?thesis by (simp add: b')
qed

text \<open>The rewrite that the mutation loop applies to one mutation.\<close>

lemma mutation_step:
  assumes "addTransaction_mutation env snap n m (b, done, wcr, f) = Inr (b', done', wcr', f')"
    and "\<forall>rq \<in> set (requests b). req_version rq = v"
  shows "done' = done @ [if mutation_type m = SetVersionstampedKey
                          then transformVersionstampMutation env m Param1 v n
                          else if mutation_type m = SetVersionstampedValue
                          then transformVersionstampMutation env m Param2 v n else m]
    \<and> wcr' = wcr @ (if mutation_type m = SetVersionstampedKey
                     then [singleKeyRange env (param1 (transformVersionstampMutation env m Param1 v n))]
                     else [])
    \<and> (\<forall>rq \<in> set (requests b'). req_version rq = v)"
proof -
  have v0: "requests b \<noteq> [] \<Longrightarrow> req_version (requests b ! 0) = v"
    using assms(2) by (cases "requests b") auto
  from assms(1) show ?thesis
    using v0 assms(2)
    by (auto simp: addTransaction_mutation_def bindE_eq_Inr Let_def split: if_splits
        dest: onOutTransaction_versions)
qed

lemma mutation_loop:
  assumes "foldE (addTransaction_mutation env snap n) ms (b, done, wcr, f) = Inr (b', done', wcr', f')"
    and "\<forall>rq \<in> set (requests b). req_version rq = v"
  shows "done' = done @ map (\<lambda>m. if mutation_type m = SetVersionstampedKey
                          then transformVersionstampMutation env m Param1 v n
                          else if mutation_type m = SetVersionstampedValue
                          then transformVersionstampMutation env m Param2 v n else m) ms
    \<and> wcr' = wcr @ map (\<lambda>m. singleKeyRange env (param1 (transformVersionstampMutation env m Param1 v n)))
                     (filter (\<lambda>m. mutation_type m = SetVersionstampedKey) ms)
    \<and> (\<forall>rq \<in> set (requests b'). req_version rq = v)"
  using assms
proof (induction ms arbitrary: b "done" wcr f)
  case Nil
  then show ?case by simp
next
  case (Cons m ms)
  from Cons.prems(1) obtain b1 d1 w1 f1
    where 1: "addTransaction_mutation env snap n m (b, done, wcr, f) = Inr (b1, d1, w1, f1)"
      and 2: "foldE (addTransaction_mutation env snap n) ms (b1, d1, w1, f1) = Inr (b', done', wcr', f')"
    by (auto simp: bindE_eq_Inr)
  note s = mutation_step [OF 1 Cons.prems(2)]
  from s have v1: "\<forall>rq \<in> set (requests b1). req_version rq = v" by blast
  from Cons.IH [OF 2 v1] s show ?case by auto
qed

lemma addTransaction_phases:
  assumes "addTransaction env tr n b = Inr (b', tr')"
  obtains b1 ms wcr isTxn b2 M b3 b4 where
    "0 \<le> n" and "n < 32768"
    and "foldE (addTransaction_mutation env (read_snapshot (transaction tr)) n)
           (mutations (transaction tr))
           (b\<lparr>outTr := replicate (length (requests b)) None\<rparr>, [],
            write_conflict_ranges (transaction tr), False) = Inr (b1, ms, wcr, isTxn)"
    and "foldE (addReadConflictRange env (read_snapshot (transaction tr)))
           (zip [0..<length (withLockedRange env tr isTxn)] (withLockedRange env tr isTxn))
           (b1, replicate (length (requests b1)) []) = Inr (b2, M)"
    and "foldE (addWriteConflictRange env (read_snapshot (transaction tr))) wcr
           (b2\<lparr>txReadConflictRangeIndexMap := txReadConflictRangeIndexMap b2 @ [M]\<rparr>) = Inr b3"
    and "addTxnStateTransactions (read_snapshot (transaction tr)) isTxn b3 = Inr b4"
    and "b' = b4\<lparr>requests := map (markReport (report_conflicting_keys (transaction tr)))
                                 (zip (outTr b4) (requests b4)),
                  transactionResolverMap := transactionResolverMap b4 @ [resolversUsedOf (outTr b4)]\<rparr>"
    and "tr' = tr\<lparr>transaction := (transaction tr)
            \<lparr>mutations := ms, write_conflict_ranges := wcr,
             read_conflict_ranges := withLockedRange env tr isTxn\<rparr>\<rparr>"
proof -
  have n: "0 \<le> n \<and> n < 32768"
  proof (rule ccontr)
    assume "\<not> (0 \<le> n \<and> n < 32768)"
    with assms show False by (simp add: addTransaction_def Let_def)
  qed
  with assms have "\<exists>b1 ms wcr isTxn b2 M b3 b4.
      foldE (addTransaction_mutation env (read_snapshot (transaction tr)) n)
           (mutations (transaction tr))
           (b\<lparr>outTr := replicate (length (requests b)) None\<rparr>, [],
            write_conflict_ranges (transaction tr), False) = Inr (b1, ms, wcr, isTxn)
    \<and> foldE (addReadConflictRange env (read_snapshot (transaction tr)))
           (zip [0..<length (withLockedRange env tr isTxn)] (withLockedRange env tr isTxn))
           (b1, replicate (length (requests b1)) []) = Inr (b2, M)
    \<and> foldE (addWriteConflictRange env (read_snapshot (transaction tr))) wcr
           (b2\<lparr>txReadConflictRangeIndexMap := txReadConflictRangeIndexMap b2 @ [M]\<rparr>) = Inr b3
    \<and> addTxnStateTransactions (read_snapshot (transaction tr)) isTxn b3 = Inr b4
    \<and> b' = b4\<lparr>requests := map (markReport (report_conflicting_keys (transaction tr)))
                                 (zip (outTr b4) (requests b4)),
                  transactionResolverMap := transactionResolverMap b4 @ [resolversUsedOf (outTr b4)]\<rparr>
    \<and> tr' = tr\<lparr>transaction := (transaction tr)
            \<lparr>mutations := ms, write_conflict_ranges := wcr,
             read_conflict_ranges := withLockedRange env tr isTxn\<rparr>\<rparr>"
    by (simp add: addTransaction_def Let_def bindE_eq_Inr split: prod.splits) blast
  then show thesis using that n by blast
qed

lemma addReadConflictRange_versions:
  assumes "addReadConflictRange env snap ir (b, M) = Inr (b', M')"
    and "\<forall>rq \<in> set (requests b). req_version rq = v"
  shows "\<forall>rq \<in> set (requests b'). req_version rq = v"
proof -
  from assms(1) have f: "foldE (\<lambda>resolver (b, rCRIndexMap).
                 bindE (onOutTransaction resolver snap
                          (\<lambda>tr. tr\<lparr>read_conflict_ranges := read_conflict_ranges tr @ [snd ir]\<rparr>) b)
                   (\<lambda>b'. if resolver \<ge> length rCRIndexMap then Inl undefined_behaviour
                         else Inr (b', rCRIndexMap[resolver := rCRIndexMap ! resolver @ [fst ir]])))
              (readResolvers env snap (snd ir)) (b, M) = Inr (b', M')"
    by (simp add: addReadConflictRange_def Let_def split: if_splits)
  have "\<forall>rq \<in> set (requests (fst (b', M'))). req_version rq = v"
  proof (rule foldE_invariant [where P = "\<lambda>s. \<forall>rq \<in> set (requests (fst s)). req_version rq = v", OF f])
    show "\<forall>rq \<in> set (requests (fst (b, M))). req_version rq = v"
      using assms(2) by simp
  next
    fix x s s'
    assume P: "\<forall>rq \<in> set (requests (fst s)). req_version rq = v"
      and st: "(case s of (b, rCRIndexMap) \<Rightarrow>
                 bindE (onOutTransaction x snap
                          (\<lambda>tr. tr\<lparr>read_conflict_ranges := read_conflict_ranges tr @ [snd ir]\<rparr>) b)
                   (\<lambda>b'. if x \<ge> length rCRIndexMap then Inl undefined_behaviour
                         else Inr (b', rCRIndexMap[x := rCRIndexMap ! x @ [fst ir]]))) = Inr s'"
    from st obtain b1 where o: "onOutTransaction x snap
        (\<lambda>tr. tr\<lparr>read_conflict_ranges := read_conflict_ranges tr @ [snd ir]\<rparr>) (fst s) = Inr b1"
      and s': "fst s' = b1"
      by (cases s) (auto simp: bindE_eq_Inr split: if_splits)
    from onOutTransaction_versions [OF o P] s'
    show "\<forall>rq \<in> set (requests (fst s')). req_version rq = v" by simp
  qed
  then show ?thesis by simp
qed

lemma addWriteConflictRange_versions:
  assumes "addWriteConflictRange env snap r b = Inr b'"
    and "\<forall>rq \<in> set (requests b). req_version rq = v"
  shows "\<forall>rq \<in> set (requests b'). req_version rq = v"
proof -
  from assms(1) obtain resolvers where f: "foldE (\<lambda>resolver b1. onOutTransaction resolver snap
                        (\<lambda>tr. tr\<lparr>write_conflict_ranges := write_conflict_ranges tr @ [r]\<rparr>) b1)
                 resolvers b = Inr b'"
    by (auto simp: addWriteConflictRange_def bindE_eq_Inr split: if_splits)
  show ?thesis
    by (rule foldE_invariant [where P = "\<lambda>b. \<forall>rq \<in> set (requests b). req_version rq = v", OF f])
       (use assms(2) onOutTransaction_versions in blast)+
qed

lemma addTxnStateTransactions_versions:
  assumes "addTxnStateTransactions snap isTxn b = Inr b'"
    and "\<forall>rq \<in> set (requests b). req_version rq = v"
  shows "\<forall>rq \<in> set (requests b'). req_version rq = v"
proof (cases isTxn)
  case True
  with assms(1) have f: "foldE (addTxnStateTransaction snap) [0..<length (requests b)] b = Inr b'"
    by (simp add: addTxnStateTransactions_def)
  show ?thesis
    by (rule foldE_invariant [where P = "\<lambda>b. \<forall>rq \<in> set (requests b). req_version rq = v", OF f])
       (use assms(2) addTxnStateTransaction_versions in blast)+
next
  case False
  with assms show ?thesis by (simp add: addTxnStateTransactions_def)
qed

lemma markReport_version: "req_version (markReport rck orq) = req_version (snd orq)"
  by (simp add: markReport_def split: option.splits)

lemma addTransaction_rewrites:
  assumes "addTransaction env tr n b = Inr (b', tr')"
    and "\<forall>rq \<in> set (requests b). req_version rq = v"
  shows "mutations (transaction tr') =
           map (\<lambda>m. if mutation_type m = SetVersionstampedKey
                     then transformVersionstampMutation env m Param1 v n
                     else if mutation_type m = SetVersionstampedValue
                     then transformVersionstampMutation env m Param2 v n else m)
             (mutations (transaction tr))"
    and "write_conflict_ranges (transaction tr') =
           write_conflict_ranges (transaction tr)
           @ map (\<lambda>m. singleKeyRange env (param1 (transformVersionstampMutation env m Param1 v n)))
               (filter (\<lambda>m. mutation_type m = SetVersionstampedKey) (mutations (transaction tr)))"
    and "\<forall>rq \<in> set (requests b'). req_version rq = v"
proof -
  from assms(1) obtain b1 ms wcr isTxn b2 M b3 b4 where
    p1: "foldE (addTransaction_mutation env (read_snapshot (transaction tr)) n)
           (mutations (transaction tr))
           (b\<lparr>outTr := replicate (length (requests b)) None\<rparr>, [],
            write_conflict_ranges (transaction tr), False) = Inr (b1, ms, wcr, isTxn)"
    and p3: "foldE (addReadConflictRange env (read_snapshot (transaction tr)))
           (zip [0..<length (withLockedRange env tr isTxn)] (withLockedRange env tr isTxn))
           (b1, replicate (length (requests b1)) []) = Inr (b2, M)"
    and p4: "foldE (addWriteConflictRange env (read_snapshot (transaction tr))) wcr
           (b2\<lparr>txReadConflictRangeIndexMap := txReadConflictRangeIndexMap b2 @ [M]\<rparr>) = Inr b3"
    and p5: "addTxnStateTransactions (read_snapshot (transaction tr)) isTxn b3 = Inr b4"
    and b': "b' = b4\<lparr>requests := map (markReport (report_conflicting_keys (transaction tr)))
                                 (zip (outTr b4) (requests b4)),
                  transactionResolverMap := transactionResolverMap b4 @ [resolversUsedOf (outTr b4)]\<rparr>"
    and tr': "tr' = tr\<lparr>transaction := (transaction tr)
            \<lparr>mutations := ms, write_conflict_ranges := wcr,
             read_conflict_ranges := withLockedRange env tr isTxn\<rparr>\<rparr>"
    by (rule addTransaction_phases)
  have v0: "\<forall>rq \<in> set (requests (b\<lparr>outTr := replicate (length (requests b)) None\<rparr>)). req_version rq = v"
    using assms(2) by simp
  note m = mutation_loop [OF p1 v0]
  from m tr' show "mutations (transaction tr') =
           map (\<lambda>m. if mutation_type m = SetVersionstampedKey
                     then transformVersionstampMutation env m Param1 v n
                     else if mutation_type m = SetVersionstampedValue
                     then transformVersionstampMutation env m Param2 v n else m)
             (mutations (transaction tr))"
    by simp
  from m tr' show "write_conflict_ranges (transaction tr') =
           write_conflict_ranges (transaction tr)
           @ map (\<lambda>m. singleKeyRange env (param1 (transformVersionstampMutation env m Param1 v n)))
               (filter (\<lambda>m. mutation_type m = SetVersionstampedKey) (mutations (transaction tr)))"
    by simp
  from m have v1: "\<forall>rq \<in> set (requests b1). req_version rq = v" by blast
  have "\<forall>rq \<in> set (requests (fst (b2, M))). req_version rq = v"
  proof (rule foldE_invariant [where P = "\<lambda>s. \<forall>rq \<in> set (requests (fst s)). req_version rq = v", OF p3])
    show "\<forall>rq \<in> set (requests (fst (b1, replicate (length (requests b1)) []))). req_version rq = v"
      using v1 by simp
  next
    fix x s s'
    assume "\<forall>rq \<in> set (requests (fst s)). req_version rq = v"
      and "addReadConflictRange env (read_snapshot (transaction tr)) x s = Inr s'"
    then show "\<forall>rq \<in> set (requests (fst s')). req_version rq = v"
      using addReadConflictRange_versions [of env _ x "fst s" "snd s" "fst s'" "snd s'" v] by simp
  qed
  then have v2: "\<forall>rq \<in> set (requests (b2\<lparr>txReadConflictRangeIndexMap :=
      txReadConflictRangeIndexMap b2 @ [M]\<rparr>)). req_version rq = v"
    by simp
  have v3: "\<forall>rq \<in> set (requests b3). req_version rq = v"
    by (rule foldE_invariant [where P = "\<lambda>b. \<forall>rq \<in> set (requests b). req_version rq = v", OF p4])
       (use v2 addWriteConflictRange_versions in blast)+
  from addTxnStateTransactions_versions [OF p5 v3]
  have v4: "\<forall>rq \<in> set (requests b4). req_version rq = v" .
  show "\<forall>rq \<in> set (requests b'). req_version rq = v"
    using v4 by (auto simp: b' markReport_version dest: set_zip_rightD)
qed

lemma addTransactions_rewrites:
  assumes "addTransactions env t0 txs b = Inr (b', txs')"
    and "\<forall>rq \<in> set (requests b). req_version rq = v"
  shows "length txs' = length txs
    \<and> (\<forall>k < length txs.
         mutations (transaction (txs' ! k)) =
           map (\<lambda>m. if mutation_type m = SetVersionstampedKey
                     then transformVersionstampMutation env m Param1 v (t0 + int k)
                     else if mutation_type m = SetVersionstampedValue
                     then transformVersionstampMutation env m Param2 v (t0 + int k) else m)
             (mutations (transaction (txs ! k)))
         \<and> write_conflict_ranges (transaction (txs' ! k)) =
           write_conflict_ranges (transaction (txs ! k))
           @ map (\<lambda>m. singleKeyRange env
                         (param1 (transformVersionstampMutation env m Param1 v (t0 + int k))))
               (filter (\<lambda>m. mutation_type m = SetVersionstampedKey)
                  (mutations (transaction (txs ! k)))))"
  using assms
proof (induction txs arbitrary: t0 b b' txs')
  case Nil
  then show ?case by simp
next
  case (Cons tr rest)
  from Cons.prems(1) obtain b1 tr1 rest1
    where a: "addTransaction env tr t0 b = Inr (b1, tr1)"
      and r: "addTransactions env (t0 + 1) rest b1 = Inr (b', rest1)"
      and e: "txs' = tr1 # rest1"
    by (auto simp: bindE_eq_Inr)
  note h = addTransaction_rewrites [OF a Cons.prems(2)]
  note ih = Cons.IH [OF r h(3)]
  show ?case
  proof (intro conjI allI impI)
    show "length txs' = length (tr # rest)" using ih e by simp
  next
    fix k assume k: "k < length (tr # rest)"
    show "mutations (transaction (txs' ! k)) =
           map (\<lambda>m. if mutation_type m = SetVersionstampedKey
                     then transformVersionstampMutation env m Param1 v (t0 + int k)
                     else if mutation_type m = SetVersionstampedValue
                     then transformVersionstampMutation env m Param2 v (t0 + int k) else m)
             (mutations (transaction ((tr # rest) ! k)))"
    proof (cases k)
      case 0
      with h(1) e show ?thesis by simp
    next
      case (Suc j)
      with k ih e show ?thesis by (simp add: add.assoc)
    qed
    show "write_conflict_ranges (transaction (txs' ! k)) =
           write_conflict_ranges (transaction ((tr # rest) ! k))
           @ map (\<lambda>m. singleKeyRange env
                         (param1 (transformVersionstampMutation env m Param1 v (t0 + int k))))
               (filter (\<lambda>m. mutation_type m = SetVersionstampedKey)
                  (mutations (transaction ((tr # rest) ! k))))"
    proof (cases k)
      case 0
      with h(2) e show ?thesis by simp
    next
      case (Suc j)
      with k ih e show ?thesis by (simp add: add.assoc)
    qed
  qed
qed

lemma init_versions:
  "\<forall>rq \<in> set (requests (ResolutionRequestBuilder_init n version prev lastV)). req_version rq = version"
  by (simp add: ResolutionRequestBuilder_init_def)

lemma getResolution_parts:
  assumes "getResolution env n lastV resolve self = Inr (reqs, self1)"
  obtains b where
    "addTransactions env 0 (trs self)
       (ResolutionRequestBuilder_init n (commitVersion self) (prevVersion self) lastV)
       = Inr (b, trs self1)"
    and "reqs = requests b"
    and "self1 = self\<lparr>trs := trs self1, transactionResolverMap := transactionResolverMap b,
                       txReadConflictRangeIndexMap := txReadConflictRangeIndexMap b,
                       resolution := map (\<lambda>r. resolve r (requests b ! r)) [0..<n]\<rparr>"
  using assms
  by (auto simp: getResolution_def bindE_eq_Inr split: if_splits)




subsection \<open>Positions of the transactions at the resolvers\<close>

lemma indexOnResolver_0 [simp]: "indexOnResolver m r 0 = 0"
  by (simp add: indexOnResolver_def)

lemma indexOnResolver_Suc:
  "k < length m \<Longrightarrow>
   indexOnResolver m r (Suc k) = indexOnResolver m r k + (if r \<in> set (m ! k) then 1 else 0)"
  by (simp add: indexOnResolver_def take_Suc_conv_app_nth)

lemma bumpNextTr_spec:
  assumes "bumpNextTr rs nt = Inr nt'" and "distinct rs"
  shows "length nt' = length nt
    \<and> (\<forall>r < length nt. nt' ! r = nt ! r + (if r \<in> set rs then 1 else 0))
    \<and> (\<forall>r \<in> set rs. r < length nt)"
  using assms
proof (induction rs arbitrary: nt)
  case Nil
  then show ?case by simp
next
  case (Cons r rs)
  from Cons.prems have r: "r < length nt"
    and b: "bumpNextTr rs (nt[r := nt ! r + 1]) = Inr nt'"
    and d: "distinct rs" and nr: "r \<notin> set rs"
    by (auto split: if_splits)
  from Cons.IH [OF b d] r nr show ?case
    by (auto simp: nth_list_update)
qed

lemma minOverResolvers_spec:
  assumes "minOverResolvers res nt rs c = Inr (c', nt')" and "distinct rs"
  shows "bumpNextTr rs nt = Inr nt'
    \<and> c' = fold min (map (\<lambda>r. committed (res ! r) ! (nt ! r)) rs) c
    \<and> (\<forall>r \<in> set rs. r < length res \<and> nt ! r < length (committed (res ! r)))"
  using assms
proof (induction rs arbitrary: nt c)
  case Nil
  then show ?case by simp
next
  case (Cons r rs)
  from Cons.prems have r: "r < length res" "r < length nt" "nt ! r < length (committed (res ! r))"
    and m: "minOverResolvers res (nt[r := nt ! r + 1]) rs (min (committed (res ! r) ! (nt ! r)) c)
              = Inr (c', nt')"
    and d: "distinct rs" and nr: "r \<notin> set rs"
    by (auto split: if_splits)
  have same: "\<forall>q \<in> set rs. nt[r := Suc (nt ! r)] ! q = nt ! q"
  proof
    fix q assume "q \<in> set rs"
    with nr have "r \<noteq> q" by auto
    then show "nt[r := Suc (nt ! r)] ! q = nt ! q" by (rule nth_list_update_neq)
  qed
  then have maps: "map (\<lambda>q. committed (res ! q) ! (nt[r := Suc (nt ! r)] ! q)) rs
      = map (\<lambda>q. committed (res ! q) ! (nt ! q)) rs"
    by simp
  from Cons.IH [OF m d] r same show ?case
    by (simp add: maps)
qed

lemma fold_min_top:
  fixes c top :: "'a :: linorder"
  assumes "\<forall>v \<in> set vs. v \<le> top" and "c \<le> top"
  shows "fold min vs c = top \<longleftrightarrow> c = top \<and> (\<forall>v \<in> set vs. v = top)"
  using assms
proof (induction vs arbitrary: c)
  case Nil
  then show ?case by simp
next
  case (Cons v vs)
  then have le: "v \<le> top" "c \<le> top" by auto
  then have mle: "min v c \<le> top" by (simp add: min_le_iff_disj)
  from le have "min v c = top \<longleftrightarrow> v = top \<and> c = top"
    by (auto simp: min_def)
  with Cons.IH [OF _ mle] Cons.prems(1) show ?case by auto
qed

lemma determineLoop_spec:
  assumes "determineLoop res trMap [k..<m] (cm, nt) = Inr (cm', nt')"
    and "\<forall>rs \<in> set trMap. distinct rs"
    and "\<forall>r < length nt. nt ! r = indexOnResolver trMap r k"
  shows "length cm' = length cm \<and> length nt' = length nt
    \<and> (\<forall>t. k \<le> t \<and> t < m \<longrightarrow>
          t < length trMap \<and> t < length cm
          \<and> cm' ! t = fold min (map (\<lambda>r. committed (res ! r) ! indexOnResolver trMap r t)
                                  (trMap ! t)) TransactionCommitted
          \<and> (\<forall>r \<in> set (trMap ! t). r < length res \<and> r < length nt
                \<and> indexOnResolver trMap r t < length (committed (res ! r))))
    \<and> (\<forall>t < k. cm' ! t = cm ! t)
    \<and> (k \<le> m \<longrightarrow> (\<forall>r < length nt. nt' ! r = indexOnResolver trMap r m))"
  using assms
proof (induction "m - k" arbitrary: k cm nt)
  case 0
  then have "[k..<m] = []" by simp
  with "0.prems" have "cm' = cm" "nt' = nt" by simp_all
  with 0 show ?case by auto
next
  case (Suc d)
  then have km: "k < m" by simp
  then have upt: "[k..<m] = k # [Suc k..<m]" by (rule upt_conv_Cons)
  from Suc.prems(1) have kl: "k < length trMap" "k < length cm"
    unfolding upt by (auto split: if_splits)
  with Suc.prems(1) obtain c nt1
    where mo: "minOverResolvers res nt (trMap ! k) TransactionCommitted = Inr (c, nt1)"
      and rest: "determineLoop res trMap [Suc k..<m] (cm[k := c], nt1) = Inr (cm', nt')"
    unfolding upt by (auto simp: bindE_eq_Inr)
  from kl Suc.prems(2) have dk: "distinct (trMap ! k)" by simp
  note ms = minOverResolvers_spec [OF mo dk]
  from ms have bump: "bumpNextTr (trMap ! k) nt = Inr nt1" by blast
  note bs = bumpNextTr_spec [OF bump dk]
  from bs have ln: "length nt1 = length nt" by blast
  have inv1: "\<forall>r < length nt1. nt1 ! r = indexOnResolver trMap r (Suc k)"
    using bs Suc.prems(3) kl by (simp add: indexOnResolver_Suc)
  have d: "d = m - Suc k" using Suc.hyps(2) by simp
  note ih = Suc.hyps(1) [OF d rest Suc.prems(2) inv1]
  have here: "\<forall>r \<in> set (trMap ! k). committed (res ! r) ! (nt ! r)
      = committed (res ! r) ! indexOnResolver trMap r k"
    using bs Suc.prems(3) by auto
  have ck: "c = fold min (map (\<lambda>r. committed (res ! r) ! indexOnResolver trMap r k) (trMap ! k))
      TransactionCommitted"
  proof -
    from here have "map (\<lambda>r. committed (res ! r) ! (nt ! r)) (trMap ! k)
      = map (\<lambda>r. committed (res ! r) ! indexOnResolver trMap r k) (trMap ! k)"
      by simp
    with ms show ?thesis by simp
  qed
  have rk: "\<forall>r \<in> set (trMap ! k). r < length res \<and> r < length nt
                \<and> indexOnResolver trMap r k < length (committed (res ! r))"
    using ms bs Suc.prems(3) by auto
  have cmk: "cm' ! k = c"
    using ih kl by simp
  have later: "t < length trMap \<and> t < length cm
          \<and> cm' ! t = fold min (map (\<lambda>r. committed (res ! r) ! indexOnResolver trMap r t)
                                  (trMap ! t)) TransactionCommitted
          \<and> (\<forall>r \<in> set (trMap ! t). r < length res \<and> r < length nt
                \<and> indexOnResolver trMap r t < length (committed (res ! r)))"
    if "Suc k \<le> t" "t < m" for t
    using ih that ln by simp
  show ?case
  proof (intro conjI allI impI ballI)
    show "length cm' = length cm" using ih by simp
    show "length nt' = length nt" using ih ln by simp
  next
    fix t assume t: "k \<le> t \<and> t < m"
    show "t < length trMap" using t kl later [of t] by (cases "t = k") auto
    show "t < length cm" using t kl later [of t] by (cases "t = k") auto
    show "cm' ! t = fold min (map (\<lambda>r. committed (res ! r) ! indexOnResolver trMap r t)
                                  (trMap ! t)) TransactionCommitted"
      using t later [of t] cmk ck by (cases "t = k") auto
  next
    fix t r assume t: "k \<le> t \<and> t < m" and r: "r \<in> set (trMap ! t)"
    have "r < length res \<and> r < length nt \<and> indexOnResolver trMap r t < length (committed (res ! r))"
    proof (cases "t = k")
      case True
      with r rk show ?thesis by simp
    next
      case False
      with t have "Suc k \<le> t" "t < m" by simp_all
      from later [OF this] r show ?thesis by simp
    qed
    then show "r < length res" "r < length nt"
      "indexOnResolver trMap r t < length (committed (res ! r))"
      by simp_all
  next
    fix t assume "t < k"
    with ih have "cm' ! t = cm[k := c] ! t" by simp
    with \<open>t < k\<close> show "cm' ! t = cm ! t" by simp
  next
    fix r assume "k \<le> m" "r < length nt"
    with ih ln km show "nt' ! r = indexOnResolver trMap r m" by simp
  qed
qed


lemma resize_empty: "resize [] n = replicate n 0"
  by (simp add: resize_def)

lemma mustContainSystemPass_nth:
  "t < length cm \<Longrightarrow>
   mustContainSystemPass env txs cm ! t
     = (if t < length txs \<and> cm ! t = TransactionCommitted \<and> \<not> foundSystem env (txs ! t)
        then TransactionConflict else cm ! t)"
  by (simp add: mustContainSystemPass_def)

lemma determineCommittedTransactions_spec:
  assumes "determineCommittedTransactions env store self = Inr self1"
    and "nextTr self = []"
    and "\<forall>rs \<in> set (transactionResolverMap self). distinct rs"
  shows "self1 = self\<lparr>ctx_committed := ctx_committed self1, nextTr := nextTr self1,
                       lockedKey := store (databaseLockedKey env),
                       locked := presentAndNonEmpty (store (databaseLockedKey env))\<rparr>"
    and "length (ctx_committed self1) = length (ctx_committed self)"
    and "length (nextTr self1) = length (resolution self)"
    and "\<forall>t < length (trs self).
           t < length (transactionResolverMap self) \<and> t < length (ctx_committed self1)
         \<and> ctx_committed self1 ! t =
             (let m = fold min (map (\<lambda>r. committed (resolution self ! r)
                                           ! indexOnResolver (transactionResolverMap self) r t)
                                  (transactionResolverMap self ! t)) TransactionCommitted
              in if presentAndNonEmpty (store (mustContainSystemMutationsKey env))
                    \<and> m = TransactionCommitted \<and> \<not> foundSystem env (trs self ! t)
                 then TransactionConflict else m)
         \<and> (\<forall>r \<in> set (transactionResolverMap self ! t).
               r < length (resolution self)
               \<and> indexOnResolver (transactionResolverMap self) r t
                   < length (committed (resolution self ! r)))"
proof -
  from assms(1) obtain cm nt where
    loop: "determineLoop (resolution self) (transactionResolverMap self) [0..<length (trs self)]
             (ctx_committed self, resize (nextTr self) (length (resolution self))) = Inr (cm, nt)"
    and s1: "self1 = self\<lparr>ctx_committed :=
               (if presentAndNonEmpty (store (mustContainSystemMutationsKey env))
                then mustContainSystemPass env (trs self) cm else cm),
             nextTr := nt, lockedKey := store (databaseLockedKey env),
             locked := presentAndNonEmpty (store (databaseLockedKey env))\<rparr>"
    by (auto simp: determineCommittedTransactions_def bindE_eq_Inr Let_def split: if_splits)
  have inv0: "\<forall>r < length (resize (nextTr self) (length (resolution self))).
      resize (nextTr self) (length (resolution self)) ! r
        = indexOnResolver (transactionResolverMap self) r 0"
    by (simp add: assms(2) resize_empty)
  note sp = determineLoop_spec [OF loop assms(3) inv0]
  show "self1 = self\<lparr>ctx_committed := ctx_committed self1, nextTr := nextTr self1,
                       lockedKey := store (databaseLockedKey env),
                       locked := presentAndNonEmpty (store (databaseLockedKey env))\<rparr>"
    by (simp add: s1)
  show "length (ctx_committed self1) = length (ctx_committed self)"
    using sp by (simp add: s1 mustContainSystemPass_def)
  show "length (nextTr self1) = length (resolution self)"
    using sp by (simp add: s1 assms(2) resize_empty)
  show "\<forall>t < length (trs self).
           t < length (transactionResolverMap self) \<and> t < length (ctx_committed self1)
         \<and> ctx_committed self1 ! t =
             (let m = fold min (map (\<lambda>r. committed (resolution self ! r)
                                           ! indexOnResolver (transactionResolverMap self) r t)
                                  (transactionResolverMap self ! t)) TransactionCommitted
              in if presentAndNonEmpty (store (mustContainSystemMutationsKey env))
                    \<and> m = TransactionCommitted \<and> \<not> foundSystem env (trs self ! t)
                 then TransactionConflict else m)
         \<and> (\<forall>r \<in> set (transactionResolverMap self ! t).
               r < length (resolution self)
               \<and> indexOnResolver (transactionResolverMap self) r t
                   < length (committed (resolution self ! r)))"
  proof (intro allI impI)
    fix t assume t: "t < length (trs self)"
    with sp have a: "t < length (transactionResolverMap self)" "t < length (ctx_committed self)"
      "t < length cm"
      and c: "cm ! t = fold min (map (\<lambda>r. committed (resolution self ! r)
                                           ! indexOnResolver (transactionResolverMap self) r t)
                                  (transactionResolverMap self ! t)) TransactionCommitted"
      and r: "\<forall>r \<in> set (transactionResolverMap self ! t).
               r < length (resolution self)
               \<and> indexOnResolver (transactionResolverMap self) r t
                   < length (committed (resolution self ! r))"
      by simp_all
    from a have l: "t < length (ctx_committed self1)"
      using sp by (simp add: s1 mustContainSystemPass_def)
    have v: "ctx_committed self1 ! t =
             (let m = fold min (map (\<lambda>r. committed (resolution self ! r)
                                           ! indexOnResolver (transactionResolverMap self) r t)
                                  (transactionResolverMap self ! t)) TransactionCommitted
              in if presentAndNonEmpty (store (mustContainSystemMutationsKey env))
                    \<and> m = TransactionCommitted \<and> \<not> foundSystem env (trs self ! t)
                 then TransactionConflict else m)"
      using a t c by (simp add: s1 mustContainSystemPass_nth Let_def)
    from a l v r show "t < length (transactionResolverMap self) \<and> t < length (ctx_committed self1)
         \<and> ctx_committed self1 ! t =
             (let m = fold min (map (\<lambda>r. committed (resolution self ! r)
                                           ! indexOnResolver (transactionResolverMap self) r t)
                                  (transactionResolverMap self ! t)) TransactionCommitted
              in if presentAndNonEmpty (store (mustContainSystemMutationsKey env))
                    \<and> m = TransactionCommitted \<and> \<not> foundSystem env (trs self ! t)
                 then TransactionConflict else m)
         \<and> (\<forall>r \<in> set (transactionResolverMap self ! t).
               r < length (resolution self)
               \<and> indexOnResolver (transactionResolverMap self) r t
                   < length (committed (resolution self ! r)))"
      by blast
  qed
qed

lemma replyLoop_spec:
  assumes "replyLoop env self nt [k..<m] = (reps, err)"
    and "\<forall>rs \<in> set (transactionResolverMap self). distinct rs"
    and "\<forall>r < length nt. nt ! r = indexOnResolver (transactionResolverMap self) r k"
    and "j < length reps"
  shows "\<exists>nt'. length nt' = length nt
    \<and> (\<forall>r < length nt. nt' ! r = indexOnResolver (transactionResolverMap self) r (k + j))
    \<and> replyTo env self nt' (k + j) = Inr (reps ! j) \<and> k + j < m"
  using assms
proof (induction "m - k" arbitrary: k nt reps j)
  case 0
  then have "[k..<m] = []" by simp
  with "0.prems" show ?case by simp
next
  case (Suc d)
  then have km: "k < m" by simp
  then have upt: "[k..<m] = k # [Suc k..<m]" by (rule upt_conv_Cons)
  from Suc.prems(1,4) obtain rep where rt: "replyTo env self nt k = Inr rep"
    unfolding upt by (cases "replyTo env self nt k") auto
  show ?case
  proof (cases j)
    case 0
    from Suc.prems(1) rt have "reps ! 0 = rep"
      unfolding upt by (auto split: if_splits sum.splits prod.splits)
    with 0 rt km Suc.prems(3) show ?thesis by auto
  next
    case (Suc j')
    from Suc.prems(1,4) rt Suc have kl: "k < length (transactionResolverMap self)"
      unfolding upt by (auto split: if_splits)
    with Suc.prems(1,4) rt Suc obtain nt1 reps' where
      bump: "bumpNextTr (transactionResolverMap self ! k) nt = Inr nt1"
      and rest: "replyLoop env self nt1 [Suc k..<m] = (reps', err)"
      and reps: "reps = rep # reps'"
      unfolding upt by (auto split: if_splits sum.splits prod.splits)
    from kl Suc.prems(2) have dk: "distinct (transactionResolverMap self ! k)" by simp
    note bs = bumpNextTr_spec [OF bump dk]
    have inv1: "\<forall>r < length nt1. nt1 ! r = indexOnResolver (transactionResolverMap self) r (Suc k)"
      using bs Suc.prems(3) kl by (simp add: indexOnResolver_Suc)
    have d: "d = m - Suc k" using \<open>Suc d = m - k\<close> by simp
    have j': "j' < length reps'" using Suc.prems(4) reps Suc by simp
    from Suc.hyps(1) [OF d rest Suc.prems(2) inv1 j'] bs reps Suc
    show ?thesis by auto
  qed
qed


lemma replyTo_committed:
  assumes "replyTo env self nt t = Inr rep"
  shows "rep = CommitID (commitVersion self) t (metadataVersionAfter self) None
     \<longleftrightarrow> ctx_committed self ! t = TransactionCommitted
          \<and> (\<not> locked self \<or> isLockAware (trs self ! t))"
  using assms
  by (auto simp: replyTo_def bindE_eq_Inr split: if_splits)

lemma reply_clients_nth:
  assumes "reply_clients env self = (replies, err)"
    and "\<forall>rs \<in> set (transactionResolverMap self). distinct rs"
    and "t < length replies"
  shows "\<exists>nt. length nt = length (nextTr self)
    \<and> (\<forall>r < length nt. nt ! r = indexOnResolver (transactionResolverMap self) r t)
    \<and> replyTo env self nt t = Inr (replies ! t) \<and> t < length (trs self)"
proof -
  from assms(1,3) have loop: "replyLoop env self (replicate (length (nextTr self)) 0)
      [0..<length (trs self)] = (replies, err)"
    by (auto simp: reply_clients_def split: if_splits)
  have inv0: "\<forall>r < length (replicate (length (nextTr self)) (0::nat)).
      replicate (length (nextTr self)) 0 ! r = indexOnResolver (transactionResolverMap self) r 0"
    by simp
  from replyLoop_spec [OF loop assms(2) inv0 assms(3)] show ?thesis by auto
qed




subsection \<open>How one call of \<^verbatim>\<open>addTransaction\<close> extends the requests\<close>

lemma getOutTransaction_building:
  assumes "getOutTransaction r snap b = Inr b'" and "building b0 b"
  shows "building b0 b'" and "r < length (requests b0)"
    and "transactionResolverMap b' = transactionResolverMap b"
    and "txReadConflictRangeIndexMap b' = txReadConflictRangeIndexMap b"
    and "pendingOf b' r = Some (case pendingOf b r of
                                   None \<Rightarrow> emptyTransaction\<lparr>read_snapshot := snap\<rparr>
                                 | Some x \<Rightarrow> x)"
    and "\<forall>q. q \<noteq> r \<longrightarrow> pendingOf b' q = pendingOf b q"
proof -
  from assms have r: "r < length (requests b0)" "r < length (outTr b)" "r < length (requests b)"
    by (auto simp: getOutTransaction_def building_def split: if_splits)
  show "r < length (requests b0)" by fact
  show "transactionResolverMap b' = transactionResolverMap b"
    and "txReadConflictRangeIndexMap b' = txReadConflictRangeIndexMap b"
    using assms(1) by (auto simp: getOutTransaction_def Let_def split: if_splits option.splits)
  show "building b0 b'"
  proof (cases "outTr b ! r")
    case (Some i)
    with assms r show ?thesis by (simp add: getOutTransaction_def)
  next
    case None
    with assms(1) r have b': "b' = b\<lparr>requests := (requests b)[r := (requests b ! r)\<lparr>req_transactions :=
            req_transactions (requests b ! r) @ [emptyTransaction\<lparr>read_snapshot := snap\<rparr>]\<rparr>],
          outTr := (outTr b)[r := Some (length (req_transactions (requests b ! r)))]\<rparr>"
      by (simp add: getOutTransaction_def Let_def)
    from assms(2) None r have old: "req_transactions (requests b ! r) = req_transactions (requests b0 ! r)"
      by (auto simp: building_def split: option.splits)
    show ?thesis
      unfolding building_def
    proof (intro conjI allI impI)
      show "length (requests b') = length (requests b0)"
        using assms(2) by (simp add: b' building_def)
      show "length (outTr b') = length (requests b0)"
        using assms(2) by (simp add: b' building_def)
    next
      fix q assume q: "q < length (requests b0)"
      show "case outTr b' ! q of
            None \<Rightarrow> req_transactions (requests b' ! q) = req_transactions (requests b0 ! q)
          | Some i \<Rightarrow> i = length (req_transactions (requests b0 ! q))
                     \<and> (\<exists>x. req_transactions (requests b' ! q)
                               = req_transactions (requests b0 ! q) @ [x])"
      proof (cases "q = r")
        case True
        with r old show ?thesis by (simp add: b' cong: option.case_cong)
      next
        case False
        with assms(2) q show ?thesis
          by (simp add: b' building_def cong: option.case_cong)
      qed
    qed
  qed
  have frame: "outTr b' ! q = outTr b ! q \<and> requests b' ! q = requests b ! q" if "r \<noteq> q" for q
    using assms(1) r that
    by (auto simp: getOutTransaction_def Let_def split: if_splits option.splits)
  show "pendingOf b' r = Some (case pendingOf b r of
                                   None \<Rightarrow> emptyTransaction\<lparr>read_snapshot := snap\<rparr>
                                 | Some x \<Rightarrow> x)"
    using assms(1) r
    by (auto simp: getOutTransaction_def pendingOf_def Let_def split: if_splits option.splits)
  show "\<forall>q. q \<noteq> r \<longrightarrow> pendingOf b' q = pendingOf b q"
  proof (intro allI impI)
    fix q :: nat assume "q \<noteq> r"
    then have "r \<noteq> q" by simp
    from frame [OF this] show "pendingOf b' q = pendingOf b q"
      by (simp add: pendingOf_def cong: option.case_cong)
  qed
qed

lemma updateOut_building:
  assumes "updateOut r f b = Inr b'" and "building b0 b"
  shows "building b0 b'" and "r < length (requests b0)"
    and "transactionResolverMap b' = transactionResolverMap b"
    and "txReadConflictRangeIndexMap b' = txReadConflictRangeIndexMap b"
    and "\<exists>x. pendingOf b r = Some x \<and> pendingOf b' r = Some (f x)"
    and "\<forall>q. q \<noteq> r \<longrightarrow> pendingOf b' q = pendingOf b q"
proof -
  from assms obtain i where r: "r < length (requests b0)" "r < length (outTr b)" "r < length (requests b)"
    and i: "outTr b ! r = Some i"
    and b': "b' = b\<lparr>requests := (requests b)[r := (requests b ! r)\<lparr>req_transactions :=
                       (req_transactions (requests b ! r))[i := f (req_transactions (requests b ! r) ! i)]\<rparr>]\<rparr>"
    by (auto simp: updateOut_def building_def Let_def split: if_splits option.splits)
  from assms(2) r i obtain x where il: "i = length (req_transactions (requests b0 ! r))"
    and rt: "req_transactions (requests b ! r) = req_transactions (requests b0 ! r) @ [x]"
    by (auto simp: building_def split: option.splits)
  show "r < length (requests b0)" by fact
  show "transactionResolverMap b' = transactionResolverMap b"
    and "txReadConflictRangeIndexMap b' = txReadConflictRangeIndexMap b"
    by (simp_all add: b')
  show "building b0 b'"
    unfolding building_def
  proof (intro conjI allI impI)
    show "length (requests b') = length (requests b0)"
      using assms(2) by (simp add: b' building_def)
    show "length (outTr b') = length (requests b0)"
      using assms(2) by (simp add: b' building_def)
  next
    fix q assume q: "q < length (requests b0)"
    show "case outTr b' ! q of
            None \<Rightarrow> req_transactions (requests b' ! q) = req_transactions (requests b0 ! q)
          | Some i \<Rightarrow> i = length (req_transactions (requests b0 ! q))
                     \<and> (\<exists>x. req_transactions (requests b' ! q)
                               = req_transactions (requests b0 ! q) @ [x])"
    proof (cases "q = r")
      case True
      with r i il rt show ?thesis by (simp add: b' cong: option.case_cong)
    next
      case False
      with assms(2) q show ?thesis
        by (simp add: b' building_def cong: option.case_cong)
    qed
  qed
  show "\<exists>x. pendingOf b r = Some x \<and> pendingOf b' r = Some (f x)"
    using r i il rt by (simp add: b' pendingOf_def)
  show "\<forall>q. q \<noteq> r \<longrightarrow> pendingOf b' q = pendingOf b q"
  proof (intro allI impI)
    fix q :: nat assume "q \<noteq> r"
    then have "r \<noteq> q" by simp
    then have "outTr b' ! q = outTr b ! q \<and> requests b' ! q = requests b ! q"
      by (simp add: b')
    then show "pendingOf b' q = pendingOf b q"
      by (simp add: pendingOf_def cong: option.case_cong)
  qed
qed

lemma onOutTransaction_building:
  assumes "onOutTransaction r snap f b = Inr b'" and "building b0 b"
  shows "building b0 b'" and "r < length (requests b0)"
    and "transactionResolverMap b' = transactionResolverMap b"
    and "txReadConflictRangeIndexMap b' = txReadConflictRangeIndexMap b"
    and "pendingOf b' r = Some (f (case pendingOf b r of
                                   None \<Rightarrow> emptyTransaction\<lparr>read_snapshot := snap\<rparr>
                                 | Some x \<Rightarrow> x))"
    and "\<forall>q. q \<noteq> r \<longrightarrow> pendingOf b' q = pendingOf b q"
proof -
  from assms(1) obtain b1 where g: "getOutTransaction r snap b = Inr b1"
    and u: "updateOut r f b1 = Inr b'"
    by (auto simp: onOutTransaction_def bindE_eq_Inr)
  note G = getOutTransaction_building [OF g assms(2)]
  note U = updateOut_building [OF u G(1)]
  show "building b0 b'" by (rule U(1))
  show "r < length (requests b0)" by (rule G(2))
  show "transactionResolverMap b' = transactionResolverMap b" using G(3) U(3) by simp
  show "txReadConflictRangeIndexMap b' = txReadConflictRangeIndexMap b" using G(4) U(4) by simp
  show "pendingOf b' r = Some (f (case pendingOf b r of
                                   None \<Rightarrow> emptyTransaction\<lparr>read_snapshot := snap\<rparr>
                                 | Some x \<Rightarrow> x))"
    using G(5) U(5) by auto
  show "\<forall>q. q \<noteq> r \<longrightarrow> pendingOf b' q = pendingOf b q"
    using G(6) U(6) by simp
qed


lemma onOutTransaction_rcr:
  assumes "onOutTransaction r snap f b = Inr b'" and "building b0 b"
    and "\<And>x. read_conflict_ranges (f x) = read_conflict_ranges x @ ext"
  shows "rcrOf (pendingOf b' r) = rcrOf (pendingOf b r) @ ext"
    and "\<forall>q. q \<noteq> r \<longrightarrow> rcrOf (pendingOf b' q) = rcrOf (pendingOf b q)"
proof -
  note O = onOutTransaction_building [OF assms(1,2)]
  show "rcrOf (pendingOf b' r) = rcrOf (pendingOf b r) @ ext"
    using O(5) assms(3)
    by (cases "pendingOf b r") (simp_all add: rcrOf_def emptyTransaction_def)
  show "\<forall>q. q \<noteq> r \<longrightarrow> rcrOf (pendingOf b' q) = rcrOf (pendingOf b q)"
    using O(6) by simp
qed

lemma mutation_step_building:
  assumes "addTransaction_mutation env snap n m (b, done, wcr, f) = Inr (b', done', wcr', f')"
    and "building b0 b"
  shows "building b0 b'"
    and "transactionResolverMap b' = transactionResolverMap b"
    and "txReadConflictRangeIndexMap b' = txReadConflictRangeIndexMap b"
    and "\<forall>q. rcrOf (pendingOf b' q) = rcrOf (pendingOf b q)"
proof -
  from assms(1) consider (same) "b' = b"
    | (meta) m' where "onOutTransaction 0 snap (\<lambda>tr. tr\<lparr>mutations := mutations tr @ [m']\<rparr>) b = Inr b'"
    by (auto simp: addTransaction_mutation_def bindE_eq_Inr Let_def split: if_splits)
  then have "building b0 b' \<and> transactionResolverMap b' = transactionResolverMap b
    \<and> txReadConflictRangeIndexMap b' = txReadConflictRangeIndexMap b
    \<and> (\<forall>q. rcrOf (pendingOf b' q) = rcrOf (pendingOf b q))"
  proof cases
    case same
    with assms(2) show ?thesis by simp
  next
    case meta
    note O = onOutTransaction_building [OF meta assms(2)]
    have "rcrOf (pendingOf b' 0) = rcrOf (pendingOf b 0) @ []"
      by (rule onOutTransaction_rcr(1) [OF meta assms(2)]) simp
    moreover have "\<forall>q. q \<noteq> 0 \<longrightarrow> rcrOf (pendingOf b' q) = rcrOf (pendingOf b q)"
      by (rule onOutTransaction_rcr(2) [OF meta assms(2), where ext = "[]"]) simp
    ultimately have "\<forall>q. rcrOf (pendingOf b' q) = rcrOf (pendingOf b q)"
      by (metis append_Nil2)
    with O show ?thesis by simp
  qed
  then show "building b0 b'"
    and "transactionResolverMap b' = transactionResolverMap b"
    and "txReadConflictRangeIndexMap b' = txReadConflictRangeIndexMap b"
    and "\<forall>q. rcrOf (pendingOf b' q) = rcrOf (pendingOf b q)"
    by simp_all
qed

lemma mutation_loop_building:
  assumes "foldE (addTransaction_mutation env snap n) ms (b, done, wcr, f) = Inr (b', done', wcr', f')"
    and "building b0 b"
  shows "building b0 b' \<and> transactionResolverMap b' = transactionResolverMap b
    \<and> txReadConflictRangeIndexMap b' = txReadConflictRangeIndexMap b
    \<and> (\<forall>q. rcrOf (pendingOf b' q) = rcrOf (pendingOf b q))"
proof -
  have "(\<lambda>s. building b0 (fst s) \<and> transactionResolverMap (fst s) = transactionResolverMap b
    \<and> txReadConflictRangeIndexMap (fst s) = txReadConflictRangeIndexMap b
    \<and> (\<forall>q. rcrOf (pendingOf (fst s) q) = rcrOf (pendingOf b q))) (b', done', wcr', f')"
  proof (rule foldE_invariant [OF assms(1)])
    show "building b0 (fst (b, done, wcr, f))
      \<and> transactionResolverMap (fst (b, done, wcr, f)) = transactionResolverMap b
      \<and> txReadConflictRangeIndexMap (fst (b, done, wcr, f)) = txReadConflictRangeIndexMap b
      \<and> (\<forall>q. rcrOf (pendingOf (fst (b, done, wcr, f)) q) = rcrOf (pendingOf b q))"
      using assms(2) by simp
  next
    fix x s s'
    assume P: "building b0 (fst s) \<and> transactionResolverMap (fst s) = transactionResolverMap b
      \<and> txReadConflictRangeIndexMap (fst s) = txReadConflictRangeIndexMap b
      \<and> (\<forall>q. rcrOf (pendingOf (fst s) q) = rcrOf (pendingOf b q))"
      and st: "addTransaction_mutation env snap n x s = Inr s'"
    obtain b1 d1 w1 f1 where s: "s = (b1, d1, w1, f1)" by (cases s) auto
    obtain b2 d2 w2 f2 where s': "s' = (b2, d2, w2, f2)" by (cases s') auto
    from P s have bb: "building b0 b1" by simp
    from mutation_step_building [OF st [unfolded s s'] bb] P s s'
    show "building b0 (fst s') \<and> transactionResolverMap (fst s') = transactionResolverMap b
      \<and> txReadConflictRangeIndexMap (fst s') = txReadConflictRangeIndexMap b
      \<and> (\<forall>q. rcrOf (pendingOf (fst s') q) = rcrOf (pendingOf b q))"
      by simp
  qed
  then show ?thesis by simp
qed


text \<open>The state of the loop over the read-conflict ranges: the index map mirrors the
  ranges handed to each resolver.\<close>

lemma readRange_resolver_step:
  assumes st: "bindE (onOutTransaction resolver snap
                 (\<lambda>tr. tr\<lparr>read_conflict_ranges := read_conflict_ranges tr @ [x]\<rparr>) b)
               (\<lambda>b'. if resolver \<ge> length M then Inl undefined_behaviour
                     else Inr (b', M[resolver := M ! resolver @ [i]])) = Inr (b', M')"
    and bb: "building b0 b"
    and len: "length M = length (requests b0)"
    and mir: "\<forall>r < length (requests b0). rcrOf (pendingOf b r) = map ((!) rcr) (M ! r)
                \<and> (\<forall>j \<in> set (M ! r). j < length rcr)"
    and i: "i < length rcr" and x: "x = rcr ! i"
  shows "building b0 b' \<and> transactionResolverMap b' = transactionResolverMap b
    \<and> txReadConflictRangeIndexMap b' = txReadConflictRangeIndexMap b
    \<and> length M' = length (requests b0)
    \<and> (\<forall>r < length (requests b0). rcrOf (pendingOf b' r) = map ((!) rcr) (M' ! r)
                \<and> (\<forall>j \<in> set (M' ! r). j < length rcr))"
proof -
  from st obtain o: "onOutTransaction resolver snap
                 (\<lambda>tr. tr\<lparr>read_conflict_ranges := read_conflict_ranges tr @ [x]\<rparr>) b = Inr b'"
    and rl: "resolver < length M" and M': "M' = M[resolver := M ! resolver @ [i]]"
    by (auto simp: bindE_eq_Inr split: if_splits)
  note O = onOutTransaction_building [OF o bb]
  have r1: "rcrOf (pendingOf b' resolver) = rcrOf (pendingOf b resolver) @ [x]"
    by (rule onOutTransaction_rcr(1) [OF o bb]) simp
  have r2: "\<forall>q. q \<noteq> resolver \<longrightarrow> rcrOf (pendingOf b' q) = rcrOf (pendingOf b q)"
    by (rule onOutTransaction_rcr(2) [OF o bb, where ext = "[x]"]) simp
  have "rcrOf (pendingOf b' r) = map ((!) rcr) (M' ! r) \<and> (\<forall>j \<in> set (M' ! r). j < length rcr)"
    if r: "r < length (requests b0)" for r
  proof (cases "r = resolver")
    case True
    with mir r r1 rl i x show ?thesis by (simp add: M')
  next
    case False
    with mir r r2 show ?thesis by (simp add: M')
  qed
  with O len show ?thesis by (simp add: M')
qed

lemma addReadConflictRange_building:
  assumes st: "addReadConflictRange env snap ir (b, M) = Inr (b', M')"
    and bb: "building b0 b"
    and len: "length M = length (requests b0)"
    and mir: "\<forall>r < length (requests b0). rcrOf (pendingOf b r) = map ((!) rcr) (M ! r)
                \<and> (\<forall>j \<in> set (M ! r). j < length rcr)"
    and i: "fst ir < length rcr" and x: "snd ir = rcr ! fst ir"
  shows "building b0 b' \<and> transactionResolverMap b' = transactionResolverMap b
    \<and> txReadConflictRangeIndexMap b' = txReadConflictRangeIndexMap b
    \<and> length M' = length (requests b0)
    \<and> (\<forall>r < length (requests b0). rcrOf (pendingOf b' r) = map ((!) rcr) (M' ! r)
                \<and> (\<forall>j \<in> set (M' ! r). j < length rcr))"
proof -
  from st have f: "foldE (\<lambda>resolver (b, rCRIndexMap).
                 bindE (onOutTransaction resolver snap
                          (\<lambda>tr. tr\<lparr>read_conflict_ranges := read_conflict_ranges tr @ [snd ir]\<rparr>) b)
                   (\<lambda>b'. if resolver \<ge> length rCRIndexMap then Inl undefined_behaviour
                         else Inr (b', rCRIndexMap[resolver := rCRIndexMap ! resolver @ [fst ir]])))
              (readResolvers env snap (snd ir)) (b, M) = Inr (b', M')"
    by (simp add: addReadConflictRange_def Let_def split: if_splits)
  have "(\<lambda>s. building b0 (fst s) \<and> transactionResolverMap (fst s) = transactionResolverMap b
    \<and> txReadConflictRangeIndexMap (fst s) = txReadConflictRangeIndexMap b
    \<and> length (snd s) = length (requests b0)
    \<and> (\<forall>r < length (requests b0). rcrOf (pendingOf (fst s) r) = map ((!) rcr) (snd s ! r)
                \<and> (\<forall>j \<in> set (snd s ! r). j < length rcr))) (b', M')"
  proof (rule foldE_invariant [OF f])
    show "building b0 (fst (b, M)) \<and> transactionResolverMap (fst (b, M)) = transactionResolverMap b
      \<and> txReadConflictRangeIndexMap (fst (b, M)) = txReadConflictRangeIndexMap b
      \<and> length (snd (b, M)) = length (requests b0)
      \<and> (\<forall>r < length (requests b0). rcrOf (pendingOf (fst (b, M)) r) = map ((!) rcr) (snd (b, M) ! r)
                \<and> (\<forall>j \<in> set (snd (b, M) ! r). j < length rcr))"
      using bb len mir by simp
  next
    fix resolver s s'
    assume P: "building b0 (fst s) \<and> transactionResolverMap (fst s) = transactionResolverMap b
      \<and> txReadConflictRangeIndexMap (fst s) = txReadConflictRangeIndexMap b
      \<and> length (snd s) = length (requests b0)
      \<and> (\<forall>r < length (requests b0). rcrOf (pendingOf (fst s) r) = map ((!) rcr) (snd s ! r)
                \<and> (\<forall>j \<in> set (snd s ! r). j < length rcr))"
      and step: "(case s of (b, rCRIndexMap) \<Rightarrow>
                 bindE (onOutTransaction resolver snap
                          (\<lambda>tr. tr\<lparr>read_conflict_ranges := read_conflict_ranges tr @ [snd ir]\<rparr>) b)
                   (\<lambda>b'. if resolver \<ge> length rCRIndexMap then Inl undefined_behaviour
                         else Inr (b', rCRIndexMap[resolver := rCRIndexMap ! resolver @ [fst ir]])))
               = Inr s'"
    obtain b1 M1 where s: "s = (b1, M1)" by (cases s) auto
    obtain b2 M2 where s': "s' = (b2, M2)" by (cases s') auto
    from P s have p1: "building b0 b1" and p2: "length M1 = length (requests b0)"
      and p3: "\<forall>r < length (requests b0). rcrOf (pendingOf b1 r) = map ((!) rcr) (M1 ! r)
                \<and> (\<forall>j \<in> set (M1 ! r). j < length rcr)"
      by simp_all
    from step s s' have step': "bindE (onOutTransaction resolver snap
                 (\<lambda>tr. tr\<lparr>read_conflict_ranges := read_conflict_ranges tr @ [snd ir]\<rparr>) b1)
               (\<lambda>b'. if resolver \<ge> length M1 then Inl undefined_behaviour
                     else Inr (b', M1[resolver := M1 ! resolver @ [fst ir]])) = Inr (b2, M2)"
      by simp
    from readRange_resolver_step [OF step' p1 p2 p3 i x] P s s'
    show "building b0 (fst s') \<and> transactionResolverMap (fst s') = transactionResolverMap b
      \<and> txReadConflictRangeIndexMap (fst s') = txReadConflictRangeIndexMap b
      \<and> length (snd s') = length (requests b0)
      \<and> (\<forall>r < length (requests b0). rcrOf (pendingOf (fst s') r) = map ((!) rcr) (snd s' ! r)
                \<and> (\<forall>j \<in> set (snd s' ! r). j < length rcr))"
      by simp
  qed
  then show ?thesis by simp
qed

lemma readRanges_building:
  assumes f: "foldE (addReadConflictRange env snap) (zip [0..<length rcr] rcr) (b, M) = Inr (b', M')"
    and bb: "building b0 b"
    and len: "length M = length (requests b0)"
    and mir: "\<forall>r < length (requests b0). rcrOf (pendingOf b r) = map ((!) rcr) (M ! r)
                \<and> (\<forall>j \<in> set (M ! r). j < length rcr)"
  shows "building b0 b' \<and> transactionResolverMap b' = transactionResolverMap b
    \<and> txReadConflictRangeIndexMap b' = txReadConflictRangeIndexMap b
    \<and> length M' = length (requests b0)
    \<and> (\<forall>r < length (requests b0). rcrOf (pendingOf b' r) = map ((!) rcr) (M' ! r)
                \<and> (\<forall>j \<in> set (M' ! r). j < length rcr))"
proof -
  have "(\<lambda>s. building b0 (fst s) \<and> transactionResolverMap (fst s) = transactionResolverMap b
    \<and> txReadConflictRangeIndexMap (fst s) = txReadConflictRangeIndexMap b
    \<and> length (snd s) = length (requests b0)
    \<and> (\<forall>r < length (requests b0). rcrOf (pendingOf (fst s) r) = map ((!) rcr) (snd s ! r)
                \<and> (\<forall>j \<in> set (snd s ! r). j < length rcr))) (b', M')"
  proof (rule foldE_invariant [OF f])
    show "building b0 (fst (b, M)) \<and> transactionResolverMap (fst (b, M)) = transactionResolverMap b
      \<and> txReadConflictRangeIndexMap (fst (b, M)) = txReadConflictRangeIndexMap b
      \<and> length (snd (b, M)) = length (requests b0)
      \<and> (\<forall>r < length (requests b0). rcrOf (pendingOf (fst (b, M)) r) = map ((!) rcr) (snd (b, M) ! r)
                \<and> (\<forall>j \<in> set (snd (b, M) ! r). j < length rcr))"
      using bb len mir by simp
  next
    fix ir s s'
    assume mem: "ir \<in> set (zip [0..<length rcr] rcr)"
      and P: "building b0 (fst s) \<and> transactionResolverMap (fst s) = transactionResolverMap b
      \<and> txReadConflictRangeIndexMap (fst s) = txReadConflictRangeIndexMap b
      \<and> length (snd s) = length (requests b0)
      \<and> (\<forall>r < length (requests b0). rcrOf (pendingOf (fst s) r) = map ((!) rcr) (snd s ! r)
                \<and> (\<forall>j \<in> set (snd s ! r). j < length rcr))"
      and step: "addReadConflictRange env snap ir s = Inr s'"
    obtain i x where ir: "ir = (i, x)" by (cases ir) auto
    from mem ir have i: "i < length rcr" and x: "x = rcr ! i"
      by (auto simp: in_set_zip)
    obtain b1 M1 where s: "s = (b1, M1)" by (cases s) auto
    obtain b2 M2 where s': "s' = (b2, M2)" by (cases s') auto
    from P s have p1: "building b0 b1" and p2: "length M1 = length (requests b0)"
      and p3: "\<forall>r < length (requests b0). rcrOf (pendingOf b1 r) = map ((!) rcr) (M1 ! r)
                \<and> (\<forall>j \<in> set (M1 ! r). j < length rcr)"
      by simp_all
    from step s s' have step': "addReadConflictRange env snap ir (b1, M1) = Inr (b2, M2)" by simp
    from i x ir have i': "fst ir < length rcr" and x': "snd ir = rcr ! fst ir" by simp_all
    from addReadConflictRange_building [OF step' p1 p2 p3 i' x'] P s s'
    show "building b0 (fst s') \<and> transactionResolverMap (fst s') = transactionResolverMap b
      \<and> txReadConflictRangeIndexMap (fst s') = txReadConflictRangeIndexMap b
      \<and> length (snd s') = length (requests b0)
      \<and> (\<forall>r < length (requests b0). rcrOf (pendingOf (fst s') r) = map ((!) rcr) (snd s' ! r)
                \<and> (\<forall>j \<in> set (snd s' ! r). j < length rcr))"
      by simp
  qed
  then show ?thesis by simp
qed


lemma addWriteConflictRange_building:
  assumes st: "addWriteConflictRange env snap x b = Inr b'"
    and bb: "building b0 b"
  shows "building b0 b' \<and> transactionResolverMap b' = transactionResolverMap b
    \<and> txReadConflictRangeIndexMap b' = txReadConflictRangeIndexMap b
    \<and> (\<forall>q. rcrOf (pendingOf b' q) = rcrOf (pendingOf b q))"
proof -
  from st obtain resolvers where f: "foldE (\<lambda>resolver b1. onOutTransaction resolver snap
                        (\<lambda>tr. tr\<lparr>write_conflict_ranges := write_conflict_ranges tr @ [x]\<rparr>) b1)
                 resolvers b = Inr b'"
    by (auto simp: addWriteConflictRange_def bindE_eq_Inr split: if_splits)
  show ?thesis
  proof (rule foldE_invariant [where P = "\<lambda>s. building b0 s
      \<and> transactionResolverMap s = transactionResolverMap b
      \<and> txReadConflictRangeIndexMap s = txReadConflictRangeIndexMap b
      \<and> (\<forall>q. rcrOf (pendingOf s q) = rcrOf (pendingOf b q))", OF f])
    show "building b0 b \<and> transactionResolverMap b = transactionResolverMap b
      \<and> txReadConflictRangeIndexMap b = txReadConflictRangeIndexMap b
      \<and> (\<forall>q. rcrOf (pendingOf b q) = rcrOf (pendingOf b q))"
      using bb by simp
  next
    fix r s s'
    assume P: "building b0 s \<and> transactionResolverMap s = transactionResolverMap b
      \<and> txReadConflictRangeIndexMap s = txReadConflictRangeIndexMap b
      \<and> (\<forall>q. rcrOf (pendingOf s q) = rcrOf (pendingOf b q))"
      and o: "onOutTransaction r snap
                (\<lambda>tr. tr\<lparr>write_conflict_ranges := write_conflict_ranges tr @ [x]\<rparr>) s = Inr s'"
    from P have bs: "building b0 s" by simp
    note O = onOutTransaction_building [OF o bs]
    have r1: "rcrOf (pendingOf s' r) = rcrOf (pendingOf s r) @ []"
      by (rule onOutTransaction_rcr(1) [OF o bs]) simp
    have r2: "\<forall>q. q \<noteq> r \<longrightarrow> rcrOf (pendingOf s' q) = rcrOf (pendingOf s q)"
      by (rule onOutTransaction_rcr(2) [OF o bs, where ext = "[]"]) simp
    have "rcrOf (pendingOf s' q) = rcrOf (pendingOf b q)" for q
      using r1 r2 P by (cases "q = r") simp_all
    with O P show "building b0 s' \<and> transactionResolverMap s' = transactionResolverMap b
      \<and> txReadConflictRangeIndexMap s' = txReadConflictRangeIndexMap b
      \<and> (\<forall>q. rcrOf (pendingOf s' q) = rcrOf (pendingOf b q))"
      by simp
  qed
qed

lemma writeRanges_building:
  assumes f: "foldE (addWriteConflictRange env snap) wcr b = Inr b'"
    and bb: "building b0 b"
  shows "building b0 b' \<and> transactionResolverMap b' = transactionResolverMap b
    \<and> txReadConflictRangeIndexMap b' = txReadConflictRangeIndexMap b
    \<and> (\<forall>q. rcrOf (pendingOf b' q) = rcrOf (pendingOf b q))"
proof (rule foldE_invariant [where P = "\<lambda>s. building b0 s
      \<and> transactionResolverMap s = transactionResolverMap b
      \<and> txReadConflictRangeIndexMap s = txReadConflictRangeIndexMap b
      \<and> (\<forall>q. rcrOf (pendingOf s q) = rcrOf (pendingOf b q))", OF f])
  show "building b0 b \<and> transactionResolverMap b = transactionResolverMap b
      \<and> txReadConflictRangeIndexMap b = txReadConflictRangeIndexMap b
      \<and> (\<forall>q. rcrOf (pendingOf b q) = rcrOf (pendingOf b q))"
    using bb by simp
next
  fix x s s'
  assume P: "building b0 s \<and> transactionResolverMap s = transactionResolverMap b
      \<and> txReadConflictRangeIndexMap s = txReadConflictRangeIndexMap b
      \<and> (\<forall>q. rcrOf (pendingOf s q) = rcrOf (pendingOf b q))"
    and st: "addWriteConflictRange env snap x s = Inr s'"
  from P have bs: "building b0 s" by simp
  from addWriteConflictRange_building [OF st bs] P
  show "building b0 s' \<and> transactionResolverMap s' = transactionResolverMap b
      \<and> txReadConflictRangeIndexMap s' = txReadConflictRangeIndexMap b
      \<and> (\<forall>q. rcrOf (pendingOf s' q) = rcrOf (pendingOf b q))"
    by simp
qed

lemma addTxnStateTransaction_building:
  assumes st: "addTxnStateTransaction snap r b = Inr b'"
    and bb: "building b0 b"
  shows "building b0 b' \<and> transactionResolverMap b' = transactionResolverMap b
    \<and> txReadConflictRangeIndexMap b' = txReadConflictRangeIndexMap b
    \<and> (\<forall>q. rcrOf (pendingOf b' q) = rcrOf (pendingOf b q))"
proof -
  from st obtain b1 i where g: "getOutTransaction r snap b = Inr b1"
    and b': "b' = b1\<lparr>requests := (requests b1)[r := (requests b1 ! r)\<lparr>txnStateTransactions :=
                    txnStateTransactions (requests b1 ! r) @ [i]\<rparr>]\<rparr>"
    by (auto simp: addTxnStateTransaction_def bindE_eq_Inr split: option.splits)
  note G = getOutTransaction_building [OF g bb]
  have same: "req_transactions (requests b' ! q) = req_transactions (requests b1 ! q)" for q
    by (cases "q = r"; cases "r < length (requests b1)") (simp_all add: b' list_update_beyond)
  have out: "outTr b' = outTr b1" by (simp add: b')
  have len: "length (requests b') = length (requests b1)" by (simp add: b')
  have b1: "building b0 b'"
    using G(1) unfolding building_def same out len by simp
  have p: "pendingOf b' q = pendingOf b1 q" for q
    unfolding pendingOf_def same out by simp
  have "rcrOf (pendingOf b1 q) = rcrOf (pendingOf b q)" for q
  proof (cases "q = r")
    case True
    with G(5) show ?thesis
      by (cases "pendingOf b r") (simp_all add: rcrOf_def emptyTransaction_def)
  next
    case False
    with G(6) show ?thesis by simp
  qed
  with b1 p G(3,4) show ?thesis by (simp add: b')
qed

lemma addTxnStateTransactions_building:
  assumes st: "addTxnStateTransactions snap isTxn b = Inr b'"
    and bb: "building b0 b"
  shows "building b0 b' \<and> transactionResolverMap b' = transactionResolverMap b
    \<and> txReadConflictRangeIndexMap b' = txReadConflictRangeIndexMap b
    \<and> (\<forall>q. rcrOf (pendingOf b' q) = rcrOf (pendingOf b q))"
proof (cases isTxn)
  case False
  with st bb show ?thesis by (simp add: addTxnStateTransactions_def)
next
  case True
  with st have f: "foldE (addTxnStateTransaction snap) [0..<length (requests b)] b = Inr b'"
    by (simp add: addTxnStateTransactions_def)
  show ?thesis
  proof (rule foldE_invariant [where P = "\<lambda>s. building b0 s
      \<and> transactionResolverMap s = transactionResolverMap b
      \<and> txReadConflictRangeIndexMap s = txReadConflictRangeIndexMap b
      \<and> (\<forall>q. rcrOf (pendingOf s q) = rcrOf (pendingOf b q))", OF f])
    show "building b0 b \<and> transactionResolverMap b = transactionResolverMap b
      \<and> txReadConflictRangeIndexMap b = txReadConflictRangeIndexMap b
      \<and> (\<forall>q. rcrOf (pendingOf b q) = rcrOf (pendingOf b q))"
      using bb by simp
  next
    fix x s s'
    assume P: "building b0 s \<and> transactionResolverMap s = transactionResolverMap b
      \<and> txReadConflictRangeIndexMap s = txReadConflictRangeIndexMap b
      \<and> (\<forall>q. rcrOf (pendingOf s q) = rcrOf (pendingOf b q))"
      and st: "addTxnStateTransaction snap x s = Inr s'"
    from P have bs: "building b0 s" by simp
    from addTxnStateTransaction_building [OF st bs] P
    show "building b0 s' \<and> transactionResolverMap s' = transactionResolverMap b
      \<and> txReadConflictRangeIndexMap s' = txReadConflictRangeIndexMap b
      \<and> (\<forall>q. rcrOf (pendingOf s' q) = rcrOf (pendingOf b q))"
      by simp
  qed
qed


lemma resolversUsedOf_set:
  "r \<in> set (resolversUsedOf out) \<longleftrightarrow> r < length out \<and> out ! r \<noteq> None"
  by (auto simp: resolversUsedOf_def)

lemma resolversUsedOf_distinct: "distinct (resolversUsedOf out)"
  by (simp add: resolversUsedOf_def)

text \<open>What one call of \<^verbatim>\<open>addTransaction\<close> does to the builder.\<close>

lemma addTransaction_spec:
  assumes a: "addTransaction env tr n b0 = Inr (b', tr')"
  shows "\<exists>used M. transactionResolverMap b' = transactionResolverMap b0 @ [used]
    \<and> txReadConflictRangeIndexMap b' = txReadConflictRangeIndexMap b0 @ [M]
    \<and> length (requests b') = length (requests b0)
    \<and> distinct used \<and> length M = length (requests b0)
    \<and> (\<forall>r \<in> set used. r < length (requests b0))
    \<and> (\<forall>r < length (requests b0).
         if r \<in> set used
         then \<exists>x. req_transactions (requests b' ! r) = req_transactions (requests b0 ! r) @ [x]
                \<and> read_conflict_ranges x
                    = map ((!) (read_conflict_ranges (transaction tr'))) (M ! r)
                \<and> (\<forall>j \<in> set (M ! r). j < length (read_conflict_ranges (transaction tr')))
         else req_transactions (requests b' ! r) = req_transactions (requests b0 ! r))"
proof -
  let ?N = "length (requests b0)"
  let ?snap = "read_snapshot (transaction tr)"
  from a obtain b1 ms wcr isTxn b2 M b3 b4 where
    p1: "foldE (addTransaction_mutation env ?snap n)
           (mutations (transaction tr))
           (b0\<lparr>outTr := replicate (length (requests b0)) None\<rparr>, [],
            write_conflict_ranges (transaction tr), False) = Inr (b1, ms, wcr, isTxn)"
    and p3: "foldE (addReadConflictRange env ?snap)
           (zip [0..<length (withLockedRange env tr isTxn)] (withLockedRange env tr isTxn))
           (b1, replicate (length (requests b1)) []) = Inr (b2, M)"
    and p4: "foldE (addWriteConflictRange env ?snap) wcr
           (b2\<lparr>txReadConflictRangeIndexMap := txReadConflictRangeIndexMap b2 @ [M]\<rparr>) = Inr b3"
    and p5: "addTxnStateTransactions ?snap isTxn b3 = Inr b4"
    and b': "b' = b4\<lparr>requests := map (markReport (report_conflicting_keys (transaction tr)))
                                 (zip (outTr b4) (requests b4)),
                  transactionResolverMap := transactionResolverMap b4 @ [resolversUsedOf (outTr b4)]\<rparr>"
    and tr': "tr' = tr\<lparr>transaction := (transaction tr)
            \<lparr>mutations := ms, write_conflict_ranges := wcr,
             read_conflict_ranges := withLockedRange env tr isTxn\<rparr>\<rparr>"
    by (rule addTransaction_phases)
  let ?rcr = "withLockedRange env tr isTxn"
  let ?b = "b0\<lparr>outTr := replicate (length (requests b0)) None\<rparr>"
  have rcr: "read_conflict_ranges (transaction tr') = ?rcr" by (simp add: tr')
  have g0: "building b0 ?b" by (simp add: building_def)
  have e0: "\<forall>r < ?N. rcrOf (pendingOf ?b r) = []"
    by (simp add: pendingOf_def rcrOf_def)
  note m1 = mutation_loop_building [OF p1 g0]
  from m1 have g1: "building b0 b1" by simp
  then have n1: "length (requests b1) = ?N" by (simp add: building_def)
  have len0: "length (replicate (length (requests b1)) ([]::nat list)) = ?N"
    using n1 by simp
  have mir0: "\<forall>r < ?N. rcrOf (pendingOf b1 r) = map ((!) ?rcr) (replicate (length (requests b1)) [] ! r)
                \<and> (\<forall>j \<in> set (replicate (length (requests b1)) [] ! r). j < length ?rcr)"
    using m1 e0 n1 by simp
  note m3 = readRanges_building [OF p3 g1 len0 mir0]
  from m3 have g2: "building b0 (b2\<lparr>txReadConflictRangeIndexMap := txReadConflictRangeIndexMap b2 @ [M]\<rparr>)"
    by (simp add: building_def cong: option.case_cong)
  have p2: "pendingOf (b2\<lparr>txReadConflictRangeIndexMap := txReadConflictRangeIndexMap b2 @ [M]\<rparr>) q
              = pendingOf b2 q" for q
    by (simp add: pendingOf_def cong: option.case_cong)
  note m4 = writeRanges_building [OF p4 g2]
  from m4 have g3: "building b0 b3" by simp
  note m5 = addTxnStateTransactions_building [OF p5 g3]
  from m5 have g4: "building b0 b4" by simp
  have tm: "transactionResolverMap b4 = transactionResolverMap b0"
    using m1 m3 m4 m5 by simp
  have xm: "txReadConflictRangeIndexMap b4 = txReadConflictRangeIndexMap b0 @ [M]"
    using m1 m3 m4 m5 by simp
  have lM: "length M = ?N" using m3 by simp
  have mir: "\<forall>r < ?N. rcrOf (pendingOf b4 r) = map ((!) ?rcr) (M ! r)
                \<and> (\<forall>j \<in> set (M ! r). j < length ?rcr)"
    using m3 m4 m5 p2 by simp
  from g4 have l4: "length (requests b4) = ?N" "length (outTr b4) = ?N"
    by (simp_all add: building_def)
  have per: "if r \<in> set (resolversUsedOf (outTr b4))
         then \<exists>x. req_transactions (requests b' ! r) = req_transactions (requests b0 ! r) @ [x]
                \<and> read_conflict_ranges x = map ((!) ?rcr) (M ! r)
                \<and> (\<forall>j \<in> set (M ! r). j < length ?rcr)
         else req_transactions (requests b' ! r) = req_transactions (requests b0 ! r)"
    if r: "r < ?N" for r
  proof (cases "outTr b4 ! r")
    case None
    with g4 r have "req_transactions (requests b4 ! r) = req_transactions (requests b0 ! r)"
      by (auto simp: building_def split: option.splits)
    with None r l4 show ?thesis
      by (simp add: b' resolversUsedOf_set markReport_def)
  next
    case (Some i)
    with g4 r obtain x where i: "i = length (req_transactions (requests b0 ! r))"
      and x: "req_transactions (requests b4 ! r) = req_transactions (requests b0 ! r) @ [x]"
      by (auto simp: building_def split: option.splits)
    from Some i x have "pendingOf b4 r = Some x" by (simp add: pendingOf_def)
    with mir r have rx: "read_conflict_ranges x = map ((!) ?rcr) (M ! r)"
      and bd: "\<forall>j \<in> set (M ! r). j < length ?rcr"
      by (auto simp: rcrOf_def)
    from Some r l4 i x have "req_transactions (requests b' ! r)
        = req_transactions (requests b0 ! r)
          @ [x\<lparr>report_conflicting_keys := report_conflicting_keys (transaction tr)\<rparr>]"
      by (simp add: b' markReport_def)
    with Some r l4 rx bd show ?thesis
      by (simp add: resolversUsedOf_set)
  qed
  have "transactionResolverMap b' = transactionResolverMap b0 @ [resolversUsedOf (outTr b4)]"
    by (simp add: b' tm)
  moreover have "txReadConflictRangeIndexMap b' = txReadConflictRangeIndexMap b0 @ [M]"
    by (simp add: b' xm)
  moreover have "length (requests b') = ?N" using l4 by (simp add: b')
  moreover have "\<forall>r \<in> set (resolversUsedOf (outTr b4)). r < ?N"
    using l4 by (simp add: resolversUsedOf_set)
  ultimately show ?thesis
    using resolversUsedOf_distinct lM per unfolding rcr by blast
qed


subsection \<open>How a batch of transactions extends the requests\<close>

lemma indexOnResolver_append:
  "t \<le> length m \<Longrightarrow> indexOnResolver (m @ [u]) r t = indexOnResolver m r t"
  by (simp add: indexOnResolver_def)

lemma indexOnResolver_mono:
  "t \<le> k \<Longrightarrow> indexOnResolver m r t \<le> indexOnResolver m r k"
proof (induction k)
  case 0
  then show ?case by simp
next
  case (Suc k)
  show ?case
  proof (cases "t = Suc k")
    case True
    then show ?thesis by simp
  next
    case False
    with Suc have le: "indexOnResolver m r t \<le> indexOnResolver m r k" by simp
    show ?thesis
    proof (cases "k < length m")
      case True
      with le show ?thesis by (simp add: indexOnResolver_Suc)
    next
      case False
      then have "indexOnResolver m r (Suc k) = indexOnResolver m r k"
        by (simp add: indexOnResolver_def)
      with le show ?thesis by simp
    qed
  qed
qed

lemma indexOnResolver_less:
  assumes "t < k" and "k \<le> length m" and "r \<in> set (m ! t)"
  shows "indexOnResolver m r t < indexOnResolver m r k"
proof -
  from assms have "indexOnResolver m r (Suc t) = indexOnResolver m r t + 1"
    by (simp add: indexOnResolver_Suc)
  moreover from assms have "indexOnResolver m r (Suc t) \<le> indexOnResolver m r k"
    by (intro indexOnResolver_mono) simp
  ultimately show ?thesis by simp
qed

lemma addTransaction_built:
  assumes a: "addTransaction env tr n b = Inr (b', tr')"
    and bt: "built b txs"
  shows "built b' (txs @ [tr'])" and "length (requests b') = length (requests b)"
proof -
  let ?N = "length (requests b)"
  let ?T = "length txs"
  let ?m = "transactionResolverMap b"
  from addTransaction_spec [OF a] obtain used M where
    tm: "transactionResolverMap b' = ?m @ [used]"
    and xm: "txReadConflictRangeIndexMap b' = txReadConflictRangeIndexMap b @ [M]"
    and n: "length (requests b') = ?N"
    and du: "distinct used" and lM: "length M = ?N"
    and ur: "\<forall>r \<in> set used. r < ?N"
    and per: "\<forall>r < ?N.
         if r \<in> set used
         then \<exists>x. req_transactions (requests b' ! r) = req_transactions (requests b ! r) @ [x]
                \<and> read_conflict_ranges x
                    = map ((!) (read_conflict_ranges (transaction tr'))) (M ! r)
                \<and> (\<forall>j \<in> set (M ! r). j < length (read_conflict_ranges (transaction tr')))
         else req_transactions (requests b' ! r) = req_transactions (requests b ! r)"
    by blast
  show "length (requests b') = ?N" by fact
  have perU: "\<exists>x. req_transactions (requests b' ! r) = req_transactions (requests b ! r) @ [x]
                \<and> read_conflict_ranges x
                    = map ((!) (read_conflict_ranges (transaction tr'))) (M ! r)
                \<and> (\<forall>j \<in> set (M ! r). j < length (read_conflict_ranges (transaction tr')))"
    if "r \<in> set used" for r
  proof -
    from that ur have "r < ?N" by simp
    from per [rule_format, OF this] that show ?thesis by simp
  qed
  have perN: "req_transactions (requests b' ! r) = req_transactions (requests b ! r)"
    if "r < ?N" and "r \<notin> set used" for r
    using per [rule_format, OF that(1)] that(2) by simp
  from bt have lt: "length ?m = ?T" and lx: "length (txReadConflictRangeIndexMap b) = ?T"
    and cnt: "\<forall>r < ?N. length (req_transactions (requests b ! r)) = indexOnResolver ?m r ?T"
    and old: "\<forall>t < ?T. distinct (?m ! t)
          \<and> length (txReadConflictRangeIndexMap b ! t) = ?N
          \<and> (\<forall>r \<in> set (?m ! t).
                r < ?N
                \<and> read_conflict_ranges
                      (req_transactions (requests b ! r) ! indexOnResolver ?m r t)
                    = map ((!) (read_conflict_ranges (transaction (txs ! t))))
                        (txReadConflictRangeIndexMap b ! t ! r)
                \<and> (\<forall>j \<in> set (txReadConflictRangeIndexMap b ! t ! r).
                      j < length (read_conflict_ranges (transaction (txs ! t)))))"
    by (simp_all add: built_def)
  have keep: "req_transactions (requests b' ! r) ! i = req_transactions (requests b ! r) ! i"
    if "r < ?N" and "i < length (req_transactions (requests b ! r))" for r i
  proof (cases "r \<in> set used")
    case True
    from perU [OF this] obtain x where
      "req_transactions (requests b' ! r) = req_transactions (requests b ! r) @ [x]"
      by blast
    with that(2) show ?thesis by (simp add: nth_append)
  next
    case False
    from perN [OF that(1) this] show ?thesis by simp
  qed
  have cnt': "length (req_transactions (requests b' ! r))
                = indexOnResolver (?m @ [used]) r (Suc ?T)" if r: "r < ?N" for r
  proof -
    have "indexOnResolver (?m @ [used]) r (Suc ?T)
            = indexOnResolver (?m @ [used]) r ?T + (if r \<in> set used then 1 else 0)"
      using lt by (simp add: indexOnResolver_Suc nth_append)
    also have "indexOnResolver (?m @ [used]) r ?T = indexOnResolver ?m r ?T"
      using lt by (simp add: indexOnResolver_append)
    finally have e: "indexOnResolver (?m @ [used]) r (Suc ?T)
            = length (req_transactions (requests b ! r)) + (if r \<in> set used then 1 else 0)"
      using cnt r by simp
    show ?thesis
    proof (cases "r \<in> set used")
      case True
      from perU [OF this] obtain x where
        "req_transactions (requests b' ! r) = req_transactions (requests b ! r) @ [x]"
        by blast
      with True e show ?thesis by simp
    next
      case False
      from perN [OF r this] False e show ?thesis by simp
    qed
  qed
  have row: "distinct ((?m @ [used]) ! t)
          \<and> length ((txReadConflictRangeIndexMap b @ [M]) ! t) = ?N
          \<and> (\<forall>r \<in> set ((?m @ [used]) ! t).
                r < ?N
                \<and> read_conflict_ranges
                      (req_transactions (requests b' ! r) ! indexOnResolver (?m @ [used]) r t)
                    = map ((!) (read_conflict_ranges (transaction ((txs @ [tr']) ! t))))
                        ((txReadConflictRangeIndexMap b @ [M]) ! t ! r)
                \<and> (\<forall>j \<in> set ((txReadConflictRangeIndexMap b @ [M]) ! t ! r).
                      j < length (read_conflict_ranges (transaction ((txs @ [tr']) ! t)))))"
    if t: "t < Suc ?T" for t
  proof (cases "t = ?T")
    case True
    have idx: "indexOnResolver (?m @ [used]) r ?T = length (req_transactions (requests b ! r))"
      if "r < ?N" for r
      using lt cnt that by (simp add: indexOnResolver_append)
    have "r < ?N
          \<and> read_conflict_ranges
                (req_transactions (requests b' ! r) ! indexOnResolver (?m @ [used]) r ?T)
              = map ((!) (read_conflict_ranges (transaction tr'))) (M ! r)
          \<and> (\<forall>j \<in> set (M ! r). j < length (read_conflict_ranges (transaction tr')))"
      if u: "r \<in> set used" for r
    proof -
      from u ur have r: "r < ?N" by simp
      from perU [OF u] obtain x where
        x: "req_transactions (requests b' ! r) = req_transactions (requests b ! r) @ [x]"
        and rx: "read_conflict_ranges x
                    = map ((!) (read_conflict_ranges (transaction tr'))) (M ! r)"
        and bd: "\<forall>j \<in> set (M ! r). j < length (read_conflict_ranges (transaction tr'))"
        by blast
      from x idx [OF r] rx bd r show ?thesis by simp
    qed
    with True du lM lt lx show ?thesis by (simp add: nth_append)
  next
    case False
    with t have t': "t < ?T" by simp
    have "r < ?N
          \<and> read_conflict_ranges
                (req_transactions (requests b' ! r) ! indexOnResolver (?m @ [used]) r t)
              = map ((!) (read_conflict_ranges (transaction (txs ! t))))
                  (txReadConflictRangeIndexMap b ! t ! r)
          \<and> (\<forall>j \<in> set (txReadConflictRangeIndexMap b ! t ! r).
                j < length (read_conflict_ranges (transaction (txs ! t))))"
      if u: "r \<in> set (?m ! t)" for r
    proof -
      from old t' u have r: "r < ?N"
        and rx: "read_conflict_ranges
                      (req_transactions (requests b ! r) ! indexOnResolver ?m r t)
                    = map ((!) (read_conflict_ranges (transaction (txs ! t))))
                        (txReadConflictRangeIndexMap b ! t ! r)"
        and bd: "\<forall>j \<in> set (txReadConflictRangeIndexMap b ! t ! r).
                      j < length (read_conflict_ranges (transaction (txs ! t)))"
        by auto
      have e: "indexOnResolver (?m @ [used]) r t = indexOnResolver ?m r t"
        using t' lt by (simp add: indexOnResolver_append)
      have "indexOnResolver ?m r t < indexOnResolver ?m r ?T"
        using t' lt u by (intro indexOnResolver_less) simp_all
      with cnt r have "indexOnResolver ?m r t < length (req_transactions (requests b ! r))"
        by simp
      from keep [OF r this] e rx bd r show ?thesis by simp
    qed
    with old t' lt lx show ?thesis by (simp add: nth_append)
  qed
  show "built b' (txs @ [tr'])"
    unfolding built_def tm xm n
    using lt lx cnt' row by simp
qed

lemma addTransactions_built:
  assumes "addTransactions env t0 txs b = Inr (b', txs')"
    and "built b pre"
  shows "built b' (pre @ txs') \<and> length (requests b') = length (requests b)
    \<and> length txs' = length txs"
  using assms
proof (induction txs arbitrary: t0 b pre txs')
  case Nil
  then show ?case by simp
next
  case (Cons tr rest)
  from Cons.prems(1) obtain b1 tr1 rest1
    where a: "addTransaction env tr t0 b = Inr (b1, tr1)"
      and r: "addTransactions env (t0 + 1) rest b1 = Inr (b', rest1)"
      and e: "txs' = tr1 # rest1"
    by (auto simp: bindE_eq_Inr)
  note s = addTransaction_built [OF a Cons.prems(2)]
  from Cons.IH [OF r s(1)] s(2) e show ?case by simp
qed

lemma init_built: "built (ResolutionRequestBuilder_init n v p l) []"
  by (simp add: built_def ResolutionRequestBuilder_init_def)


subsection \<open>Metadata transactions and transactions sent to no resolver\<close>

lemma mutation_step_flag:
  assumes "addTransaction_mutation env snap n m (b, done, wcr, f) = Inr (b', done', wcr', f')"
  shows "\<exists>m'. done' = done @ [m'] \<and> f' = (f \<or> isMetadataMutation env m')
    \<and> (\<not> isMetadataMutation env m' \<longrightarrow> b' = b)"
  using assms
  by (auto simp: addTransaction_mutation_def bindE_eq_Inr Let_def split: if_splits)

lemma mutation_loop_flag:
  assumes "foldE (addTransaction_mutation env snap n) ms (b, done, wcr, f) = Inr (b', done', wcr', f')"
  shows "\<exists>new. done' = done @ new \<and> f' = (f \<or> list_ex (isMetadataMutation env) new)
    \<and> (\<not> list_ex (isMetadataMutation env) new \<longrightarrow> b' = b)"
  using assms
proof (induction ms arbitrary: b "done" wcr f)
  case Nil
  then show ?case by simp
next
  case (Cons m ms)
  from Cons.prems(1) obtain b1 d1 w1 f1
    where 1: "addTransaction_mutation env snap n m (b, done, wcr, f) = Inr (b1, d1, w1, f1)"
      and 2: "foldE (addTransaction_mutation env snap n) ms (b1, d1, w1, f1) = Inr (b', done', wcr', f')"
    by (auto simp: bindE_eq_Inr)
  from mutation_step_flag [OF 1] obtain m' where
    s: "d1 = done @ [m']" "f1 = (f \<or> isMetadataMutation env m')"
       "\<not> isMetadataMutation env m' \<longrightarrow> b1 = b"
    by blast
  from Cons.IH [OF 2] obtain new where
    l: "done' = d1 @ new" "f' = (f1 \<or> list_ex (isMetadataMutation env) new)"
       "\<not> list_ex (isMetadataMutation env) new \<longrightarrow> b' = b1"
    by blast
  from s l have "done' = done @ (m' # new)
    \<and> f' = (f \<or> list_ex (isMetadataMutation env) (m' # new))
    \<and> (\<not> list_ex (isMetadataMutation env) (m' # new) \<longrightarrow> b' = b)"
    by auto
  then show ?case by blast
qed

lemma addTransaction_flag:
  assumes a: "addTransaction env tr n b = Inr (b', tr')"
  shows "read_conflict_ranges (transaction tr')
           = withLockedRange env tr (list_ex (isMetadataMutation env) (mutations (transaction tr')))"
    and "report_conflicting_keys (transaction tr') = report_conflicting_keys (transaction tr)"
    and "isLockAware tr' = isLockAware tr"
    and "read_conflict_ranges (transaction tr') = []
         \<and> write_conflict_ranges (transaction tr') = []
         \<and> \<not> list_ex (isMetadataMutation env) (mutations (transaction tr'))
         \<longrightarrow> transactionResolverMap b' = transactionResolverMap b @ [[]]"
proof -
  let ?snap = "read_snapshot (transaction tr)"
  from a obtain b1 ms wcr isTxn b2 M b3 b4 where
    p1: "foldE (addTransaction_mutation env ?snap n)
           (mutations (transaction tr))
           (b\<lparr>outTr := replicate (length (requests b)) None\<rparr>, [],
            write_conflict_ranges (transaction tr), False) = Inr (b1, ms, wcr, isTxn)"
    and p3: "foldE (addReadConflictRange env ?snap)
           (zip [0..<length (withLockedRange env tr isTxn)] (withLockedRange env tr isTxn))
           (b1, replicate (length (requests b1)) []) = Inr (b2, M)"
    and p4: "foldE (addWriteConflictRange env ?snap) wcr
           (b2\<lparr>txReadConflictRangeIndexMap := txReadConflictRangeIndexMap b2 @ [M]\<rparr>) = Inr b3"
    and p5: "addTxnStateTransactions ?snap isTxn b3 = Inr b4"
    and b': "b' = b4\<lparr>requests := map (markReport (report_conflicting_keys (transaction tr)))
                                 (zip (outTr b4) (requests b4)),
                  transactionResolverMap := transactionResolverMap b4 @ [resolversUsedOf (outTr b4)]\<rparr>"
    and tr': "tr' = tr\<lparr>transaction := (transaction tr)
            \<lparr>mutations := ms, write_conflict_ranges := wcr,
             read_conflict_ranges := withLockedRange env tr isTxn\<rparr>\<rparr>"
    by (rule addTransaction_phases)
  from mutation_loop_flag [OF p1] have
    fl: "isTxn = list_ex (isMetadataMutation env) ms"
    and same: "\<not> list_ex (isMetadataMutation env) ms
         \<longrightarrow> b1 = b\<lparr>outTr := replicate (length (requests b)) None\<rparr>"
    by auto
  show "read_conflict_ranges (transaction tr')
           = withLockedRange env tr (list_ex (isMetadataMutation env) (mutations (transaction tr')))"
    by (simp add: tr' fl)
  show "report_conflicting_keys (transaction tr') = report_conflicting_keys (transaction tr)"
    by (simp add: tr')
  show "isLockAware tr' = isLockAware tr"
    by (simp add: tr')
  show "read_conflict_ranges (transaction tr') = []
         \<and> write_conflict_ranges (transaction tr') = []
         \<and> \<not> list_ex (isMetadataMutation env) (mutations (transaction tr'))
         \<longrightarrow> transactionResolverMap b' = transactionResolverMap b @ [[]]"
  proof
    assume h: "read_conflict_ranges (transaction tr') = []
         \<and> write_conflict_ranges (transaction tr') = []
         \<and> \<not> list_ex (isMetadataMutation env) (mutations (transaction tr'))"
    then have r: "withLockedRange env tr isTxn = []" and w: "wcr = []"
      and nm: "\<not> list_ex (isMetadataMutation env) ms"
      by (simp_all add: tr')
    from nm fl have nf: "\<not> isTxn" by simp
    from same nm have e1: "b1 = b\<lparr>outTr := replicate (length (requests b)) None\<rparr>" by simp
    from p3 r have e2: "b2 = b1" by simp
    from p4 w have e3: "b3 = b2\<lparr>txReadConflictRangeIndexMap := txReadConflictRangeIndexMap b2 @ [M]\<rparr>"
      by simp
    from p5 nf have e4: "b4 = b3" by (simp add: addTxnStateTransactions_def)
    have o: "outTr b4 = replicate (length (requests b)) None"
      and t: "transactionResolverMap b4 = transactionResolverMap b"
      by (simp_all add: e4 e3 e2 e1)
    have "resolversUsedOf (replicate (length (requests b)) None) = []"
      by (auto simp: resolversUsedOf_def filter_empty_conv)
    with o t show "transactionResolverMap b' = transactionResolverMap b @ [[]]"
      by (simp add: b')
  qed
qed

lemma addTransactions_flag:
  assumes "addTransactions env t0 txs b = Inr (b', txs')"
  shows "\<exists>rows. transactionResolverMap b' = transactionResolverMap b @ rows
    \<and> length rows = length txs \<and> length txs' = length txs
    \<and> (\<forall>k < length txs.
         read_conflict_ranges (transaction (txs' ! k))
           = withLockedRange env (txs ! k)
               (list_ex (isMetadataMutation env) (mutations (transaction (txs' ! k))))
         \<and> report_conflicting_keys (transaction (txs' ! k))
             = report_conflicting_keys (transaction (txs ! k))
         \<and> isLockAware (txs' ! k) = isLockAware (txs ! k)
         \<and> (read_conflict_ranges (transaction (txs' ! k)) = []
             \<and> write_conflict_ranges (transaction (txs' ! k)) = []
             \<and> \<not> list_ex (isMetadataMutation env) (mutations (transaction (txs' ! k)))
             \<longrightarrow> rows ! k = []))"
  using assms
proof (induction txs arbitrary: t0 b txs')
  case Nil
  then show ?case by simp
next
  case (Cons tr rest)
  from Cons.prems(1) obtain b1 tr1 rest1
    where a: "addTransaction env tr t0 b = Inr (b1, tr1)"
      and r: "addTransactions env (t0 + 1) rest b1 = Inr (b', rest1)"
      and e: "txs' = tr1 # rest1"
    by (auto simp: bindE_eq_Inr)
  note h = addTransaction_flag [OF a]
  from addTransaction_spec [OF a] obtain used where
    u: "transactionResolverMap b1 = transactionResolverMap b @ [used]"
    by blast
  from Cons.IH [OF r] obtain rows where
    ih: "transactionResolverMap b' = transactionResolverMap b1 @ rows"
      "length rows = length rest" "length rest1 = length rest"
      "\<forall>k < length rest.
         read_conflict_ranges (transaction (rest1 ! k))
           = withLockedRange env (rest ! k)
               (list_ex (isMetadataMutation env) (mutations (transaction (rest1 ! k))))
         \<and> report_conflicting_keys (transaction (rest1 ! k))
             = report_conflicting_keys (transaction (rest ! k))
         \<and> isLockAware (rest1 ! k) = isLockAware (rest ! k)
         \<and> (read_conflict_ranges (transaction (rest1 ! k)) = []
             \<and> write_conflict_ranges (transaction (rest1 ! k)) = []
             \<and> \<not> list_ex (isMetadataMutation env) (mutations (transaction (rest1 ! k)))
             \<longrightarrow> rows ! k = [])"
    by blast
  have "\<forall>k < length (tr # rest).
         read_conflict_ranges (transaction (txs' ! k))
           = withLockedRange env ((tr # rest) ! k)
               (list_ex (isMetadataMutation env) (mutations (transaction (txs' ! k))))
         \<and> report_conflicting_keys (transaction (txs' ! k))
             = report_conflicting_keys (transaction ((tr # rest) ! k))
         \<and> isLockAware (txs' ! k) = isLockAware ((tr # rest) ! k)
         \<and> (read_conflict_ranges (transaction (txs' ! k)) = []
             \<and> write_conflict_ranges (transaction (txs' ! k)) = []
             \<and> \<not> list_ex (isMetadataMutation env) (mutations (transaction (txs' ! k)))
             \<longrightarrow> (used # rows) ! k = [])"
  proof (intro allI impI)
    fix k assume k: "k < length (tr # rest)"
    show "read_conflict_ranges (transaction (txs' ! k))
           = withLockedRange env ((tr # rest) ! k)
               (list_ex (isMetadataMutation env) (mutations (transaction (txs' ! k))))
         \<and> report_conflicting_keys (transaction (txs' ! k))
             = report_conflicting_keys (transaction ((tr # rest) ! k))
         \<and> isLockAware (txs' ! k) = isLockAware ((tr # rest) ! k)
         \<and> (read_conflict_ranges (transaction (txs' ! k)) = []
             \<and> write_conflict_ranges (transaction (txs' ! k)) = []
             \<and> \<not> list_ex (isMetadataMutation env) (mutations (transaction (txs' ! k)))
             \<longrightarrow> (used # rows) ! k = [])"
    proof (cases k)
      case 0
      from h(4) u have "read_conflict_ranges (transaction tr1) = []
             \<and> write_conflict_ranges (transaction tr1) = []
             \<and> \<not> list_ex (isMetadataMutation env) (mutations (transaction tr1))
             \<longrightarrow> used = []"
        by simp
      with 0 h(1,2,3) e show ?thesis by simp
    next
      case (Suc j)
      with k have "j < length rest" by simp
      with ih(4) have "read_conflict_ranges (transaction (rest1 ! j))
           = withLockedRange env (rest ! j)
               (list_ex (isMetadataMutation env) (mutations (transaction (rest1 ! j))))
         \<and> report_conflicting_keys (transaction (rest1 ! j))
             = report_conflicting_keys (transaction (rest ! j))
         \<and> isLockAware (rest1 ! j) = isLockAware (rest ! j)
         \<and> (read_conflict_ranges (transaction (rest1 ! j)) = []
             \<and> write_conflict_ranges (transaction (rest1 ! j)) = []
             \<and> \<not> list_ex (isMetadataMutation env) (mutations (transaction (rest1 ! j)))
             \<longrightarrow> rows ! j = [])"
        by blast
      then show ?thesis unfolding Suc e nth_Cons_Suc .
    qed
  qed
  moreover have "transactionResolverMap b' = transactionResolverMap b @ (used # rows)"
    using ih(1) u by simp
  moreover have "length (used # rows) = length (tr # rest)" "length txs' = length (tr # rest)"
    using ih(2,3) e by simp_all
  ultimately show ?case by blast
qed


lemma getResolution_built:
  assumes "getResolution env n lastV resolve self = Inr (reqs, self1)"
  obtains b where
    "addTransactions env 0 (trs self)
       (ResolutionRequestBuilder_init n (commitVersion self) (prevVersion self) lastV)
       = Inr (b, trs self1)"
    and "built b (trs self1)" and "requests b = reqs" and "length reqs = n"
    and "length (trs self1) = length (trs self)"
    and "transactionResolverMap self1 = transactionResolverMap b"
    and "txReadConflictRangeIndexMap self1 = txReadConflictRangeIndexMap b"
    and "resolution self1 = map (\<lambda>r. resolve r (reqs ! r)) [0..<n]"
    and "nextTr self1 = nextTr self" and "commitVersion self1 = commitVersion self"
    and "ctx_committed self1 = ctx_committed self"
    and "\<forall>rs \<in> set (transactionResolverMap self1). distinct rs"
proof -
  from assms obtain b where a: "addTransactions env 0 (trs self)
       (ResolutionRequestBuilder_init n (commitVersion self) (prevVersion self) lastV)
       = Inr (b, trs self1)"
    and rq: "reqs = requests b"
    and s: "self1 = self\<lparr>trs := trs self1, transactionResolverMap := transactionResolverMap b,
                       txReadConflictRangeIndexMap := txReadConflictRangeIndexMap b,
                       resolution := map (\<lambda>r. resolve r (requests b ! r)) [0..<n]\<rparr>"
    by (rule getResolution_parts)
  from addTransactions_built [OF a init_built]
  have bt: "built b (trs self1)" and n: "length (requests b) = n"
    and l: "length (trs self1) = length (trs self)"
    by (simp_all add: ResolutionRequestBuilder_init_def)
  have m: "transactionResolverMap self1 = transactionResolverMap b"
    "txReadConflictRangeIndexMap self1 = txReadConflictRangeIndexMap b"
    "resolution self1 = map (\<lambda>r. resolve r (reqs ! r)) [0..<n]"
    "nextTr self1 = nextTr self" "commitVersion self1 = commitVersion self"
    "ctx_committed self1 = ctx_committed self"
    by (subst s, simp add: rq)+
  have "\<forall>rs \<in> set (transactionResolverMap b). distinct rs"
    using bt by (auto simp: built_def in_set_conv_nth)
  with that [OF a bt] rq n l m show thesis by simp
qed


subsection \<open>The conflicting indices of a reply\<close>

lemma remapIndices_spec:
  assumes "remapIndices (rowOf m t r) js = Inr ks"
  shows "ks = map ((!) (m ! t ! r)) js \<and> (\<forall>j \<in> set js. j < length (m ! t ! r))"
  using assms
proof (induction js arbitrary: ks)
  case Nil
  then show ?case by simp
next
  case (Cons j js)
  from Cons.prems obtain ind where row: "rowOf m t r = Some ind"
    by (cases "rowOf m t r") auto
  then have ind: "ind = m ! t ! r"
    by (auto simp: rowOf_def split: if_splits)
  from Cons.prems row obtain ks' where j: "j < length ind"
    and rest: "remapIndices (rowOf m t r) js = Inr ks'"
    and e: "ks = ind ! j # ks'"
    by (auto simp: bindE_eq_Inr split: if_splits)
  from Cons.IH [OF rest] j e ind show ?case by simp
qed

lemma collectConflicting_spec:
  assumes "collectConflicting self nt t rs = Inr idxs"
  shows "idxs = concat (map (\<lambda>r. map ((!) (txReadConflictRangeIndexMap self ! t ! r))
                                 (cKRsOf (resolution self ! r) (nt ! r))) rs)
    \<and> (\<forall>r \<in> set rs. r < length (resolution self) \<and> r < length nt
          \<and> (\<forall>j \<in> set (cKRsOf (resolution self ! r) (nt ! r)).
                j < length (txReadConflictRangeIndexMap self ! t ! r)))"
  using assms
proof (induction rs arbitrary: idxs)
  case Nil
  then show ?case by simp
next
  case (Cons r rs)
  from Cons.prems obtain ks js where b: "r < length (resolution self)" "r < length nt"
    and h: "remapIndices (rowOf (txReadConflictRangeIndexMap self) t r)
              (cKRsOf (resolution self ! r) (nt ! r)) = Inr ks"
    and rest: "collectConflicting self nt t rs = Inr js"
    and e: "idxs = ks @ js"
    by (auto simp: bindE_eq_Inr split: if_splits)
  from remapIndices_spec [OF h] Cons.IH [OF rest] b e show ?case by simp
qed

lemma replyTo_conflicting:
  assumes "replyTo env self nt t = Inr (CommitID v k mvo (Some idxs))"
  shows "collectConflicting self nt t (transactionResolverMap self ! t) = Inr idxs"
    and "idxs \<noteq> []" and "report_conflicting_keys (transaction (trs self ! t))"
    and "v = invalidVersion env" and "k = t" and "mvo = None"
    and "t < length (transactionResolverMap self)"
  using assms
  by (auto simp: replyTo_def bindE_eq_Inr split: if_splits)


text \<open>\<^verbatim>\<open>reply\<close> answers the transactions in order and stops at the first failure.\<close>

lemma replyLoop_length:
  "replyLoop env self nt ts = (reps, err) \<Longrightarrow>
   length reps \<le> length ts \<and> (err = None \<longrightarrow> length reps = length ts)"
proof (induction ts arbitrary: nt reps err)
  case Nil
  then show ?case by simp
next
  case (Cons t ts)
  show ?case
  proof (cases "replyTo env self nt t")
    case (Inl e)
    with Cons.prems show ?thesis by auto
  next
    case (Inr rep)
    show ?thesis
    proof (cases "t \<ge> length (transactionResolverMap self)")
      case True
      with Cons.prems Inr show ?thesis by auto
    next
      case False
      show ?thesis
      proof (cases "bumpNextTr (transactionResolverMap self ! t) nt")
        case (Inl e)
        with Cons.prems Inr False show ?thesis by auto
      next
        case (Inr nt')
        obtain reps' err' where r: "replyLoop env self nt' ts = (reps', err')"
          by (cases "replyLoop env self nt' ts") auto
        from Cons.prems \<open>replyTo env self nt t = Inr rep\<close> False Inr r
        have "reps = rep # reps'" and "err = err'" by auto
        with Cons.IH [OF r] show ?thesis by simp
      qed
    qed
  qed
qed

lemma reply_clients_length:
  assumes "reply_clients env self = (replies, err)"
  shows "length replies \<le> length (trs self)
    \<and> (err = None \<longrightarrow> length replies = length (trs self))"
proof (cases "forceRecovery self")
  case True
  with assms show ?thesis by (auto simp: reply_clients_def)
next
  case False
  with assms have "replyLoop env self (replicate (length (nextTr self)) 0)
      [0..<length (trs self)] = (replies, err)"
    by (simp add: reply_clients_def)
  from replyLoop_length [OF this] show ?thesis by simp
qed

subsection \<open>C5: versionstamped mutations\<close>

text \<open>
  C5, as stated: every rewrite of a versionstamped mutation, of a key or of a value, adds
  a write-conflict range. In the batch \<open>stampedBatch\<close> the first transaction sets a
  versionstamped value: the mutation is rewritten, and the transaction still has no
  write-conflict range afterwards.
\<close>

theorem versionstamped_value_adds_no_range:
  "\<not> isl (getResolution exampleEnv 2 5 alwaysCommitted stampedBatch)
   \<and> mutations (transaction (trs stampedBatch ! 0))
       = [\<lparr>mutation_type = SetVersionstampedValue, param1 = [1], param2 = [9]\<rparr>]
   \<and> mutations (transaction (trs (snd (projr (getResolution exampleEnv 2 5 alwaysCommitted stampedBatch))) ! 0))
       = [\<lparr>mutation_type = SetValue, param1 = [1], param2 = [9, 7, 0]\<rparr>]
   \<and> write_conflict_ranges
        (transaction (trs (snd (projr (getResolution exampleEnv 2 5 alwaysCommitted stampedBatch))) ! 0))
       = []"
  by code_simp

text \<open>
  C5, amended: when \<^verbatim>\<open>getResolution\<close> has built the requests of a batch, every
  \<^verbatim>\<open>SetVersionstampedKey\<close> mutation of transaction \<open>t\<close> has been rewritten in its first
  parameter and every \<^verbatim>\<open>SetVersionstampedValue\<close> mutation in its second, both with the
  commit version and \<open>t\<close>, and all other mutations are as they were; the write-conflict
  ranges of the transaction are the submitted ones followed by the single-key range of
  the rewritten key of each \<^verbatim>\<open>SetVersionstampedKey\<close> mutation, in order. A rewritten
  value adds no range.
\<close>

theorem versionstamps_rewritten:
  assumes "getResolution env n lastV resolve self = Inr (reqs, self1)"
    and "t < length (trs self)"
  shows "mutations (transaction (trs self1 ! t)) =
           map (\<lambda>m. if mutation_type m = SetVersionstampedKey
                     then transformVersionstampMutation env m Param1 (commitVersion self) (int t)
                     else if mutation_type m = SetVersionstampedValue
                     then transformVersionstampMutation env m Param2 (commitVersion self) (int t)
                     else m)
             (mutations (transaction (trs self ! t)))
    \<and> write_conflict_ranges (transaction (trs self1 ! t)) =
           write_conflict_ranges (transaction (trs self ! t))
           @ map (\<lambda>m. singleKeyRange env
                   (param1 (transformVersionstampMutation env m Param1 (commitVersion self) (int t))))
               (filter (\<lambda>m. mutation_type m = SetVersionstampedKey)
                  (mutations (transaction (trs self ! t))))"
proof -
  from assms(1) obtain b where a: "addTransactions env 0 (trs self)
       (ResolutionRequestBuilder_init n (commitVersion self) (prevVersion self) lastV)
       = Inr (b, trs self1)"
    by (rule getResolution_parts)
  from addTransactions_rewrites [OF a init_versions] assms(2) show ?thesis by simp
qed


theorem versionstamps_rewritten_witness:
  "\<exists>reqs self1. getResolution exampleEnv 2 5 alwaysCommitted stampedBatch = Inr (reqs, self1)
     \<and> 1 < length (trs stampedBatch)
     \<and> mutations (transaction (trs self1 ! 1))
         = [\<lparr>mutation_type = SetValue, param1 = [1, 7, 1], param2 = [9]\<rparr>]
     \<and> write_conflict_ranges (transaction (trs self1 ! 1))
         = [\<lparr>range_begin = [1, 7, 1], range_end = [1, 7, 1, 0]\<rparr>]"
proof -
  have "\<not> isl (getResolution exampleEnv 2 5 alwaysCommitted stampedBatch)"
    by code_simp
  then obtain reqs self1
    where g: "getResolution exampleEnv 2 5 alwaysCommitted stampedBatch = Inr (reqs, self1)"
    by (cases "getResolution exampleEnv 2 5 alwaysCommitted stampedBatch") auto
  have t: "1 < length (trs stampedBatch)"
    by code_simp
  have m: "map (\<lambda>m. if mutation_type m = SetVersionstampedKey
                     then transformVersionstampMutation exampleEnv m Param1 (commitVersion stampedBatch) (int 1)
                     else if mutation_type m = SetVersionstampedValue
                     then transformVersionstampMutation exampleEnv m Param2 (commitVersion stampedBatch) (int 1)
                     else m)
             (mutations (transaction (trs stampedBatch ! 1)))
           = [\<lparr>mutation_type = SetValue, param1 = [1, 7, 1], param2 = [9]\<rparr>]"
    by code_simp
  have w: "write_conflict_ranges (transaction (trs stampedBatch ! 1))
           @ map (\<lambda>m. singleKeyRange exampleEnv
                   (param1 (transformVersionstampMutation exampleEnv m Param1 (commitVersion stampedBatch) (int 1))))
               (filter (\<lambda>m. mutation_type m = SetVersionstampedKey)
                  (mutations (transaction (trs stampedBatch ! 1))))
           = [\<lparr>range_begin = [1, 7, 1], range_end = [1, 7, 1, 0]\<rparr>]"
    by code_simp
  from versionstamps_rewritten [OF g t] g t show ?thesis
    unfolding m w by blast
qed

subsection \<open>C1: when a transaction is answered as committed\<close>

text \<open>
  C1, as stated: a transaction is answered as committed exactly when all its resolvers
  found it committed and the database is unlocked or the transaction lock-aware. In the
  batch \<open>plainBatch\<close> the only transaction goes to resolver 0, which finds it committed,
  and the database is not locked; but the store holds a value under the
  must-contain-system-mutations key and the transaction writes no system key, so
  \<^verbatim>\<open>determineCommittedTransactions\<close> turns the verdict into a conflict and the client
  gets \<^verbatim>\<open>not_committed\<close>.
\<close>

theorem committed_by_resolvers_but_demoted:
  "\<not> isl (getResolution exampleEnv 2 5 alwaysCommitted plainBatch)
   \<and> transactionResolverMap plainResolved = [[0]]
   \<and> committed (resolution plainResolved ! 0) = [TransactionCommitted]
   \<and> \<not> presentAndNonEmpty (guardedStore (databaseLockedKey exampleEnv))
   \<and> \<not> isl (determineCommittedTransactions exampleEnv guardedStore plainResolved)
   \<and> reply_clients exampleEnv plainGuarded = ([ReplyError not_committed], None)"
  by code_simp

text \<open>
  C1, amended: take a batch context as \<^verbatim>\<open>getResolution\<close> leaves it (fresh
  \<^verbatim>\<open>nextTr\<close>, no resolver twice in a row of \<^verbatim>\<open>transactionResolverMap\<close>, verdicts among
  the three codes). For every transaction \<open>t\<close> of the batch, the commit status computed
  by \<^verbatim>\<open>determineCommittedTransactions\<close> is the minimum of \<^verbatim>\<open>TransactionCommitted\<close> and
  the verdicts of exactly the resolvers in \<^verbatim>\<open>transactionResolverMap[t]\<close>, each read at
  the position of \<open>t\<close> on that resolver, turned into a conflict when the
  must-contain-system-mutations key is set, the minimum is committed and no mutation of
  the transaction lies at or beyond the end of the non-metadata system keys.

  \<^verbatim>\<open>reply\<close> answers the transactions in the order of the batch and stops at the first
  failure: it throws \<^verbatim>\<open>worker_removed\<close> before any answer when \<^verbatim>\<open>forceRecovery\<close> is
  set, and it fails the assertion on \<^verbatim>\<open>conflictingKRIndices\<close> at a transaction that
  asked for its conflicting keys and has none. So a transaction may get no answer at
  all. When \<^verbatim>\<open>reply\<close> ends without an error every transaction of the batch is
  answered. Every transaction that is answered gets the committed reply (commit version,
  number in the batch, metadata version) exactly when every resolver it was sent to found
  it committed, the database was unlocked at commit time or the transaction is
  lock-aware, and the must-contain-system-mutations key is unset or the transaction
  writes such a system key. The code between the two functions changes the statuses only
  when it raises \<^verbatim>\<open>forceRecovery\<close>.
\<close>

theorem commit_reply_iff:
  assumes "determineCommittedTransactions env store self = Inr self1"
    and "nextTr self = []"
    and "\<forall>rs \<in> set (transactionResolverMap self). distinct rs"
    and "\<forall>rep \<in> set (resolution self). \<forall>v \<in> set (committed rep).
           v = TransactionConflict \<or> v = TransactionTooOld \<or> v = TransactionCommitted"
    and "t < length (trs self)"
  shows "ctx_committed self1 ! t =
           (let m = fold min (map (\<lambda>r. committed (resolution self ! r)
                                         ! indexOnResolver (transactionResolverMap self) r t)
                                (transactionResolverMap self ! t)) TransactionCommitted
            in if presentAndNonEmpty (store (mustContainSystemMutationsKey env))
                  \<and> m = TransactionCommitted \<and> \<not> foundSystem env (trs self ! t)
               then TransactionConflict else m)
    \<and> (reply_clients env (self1\<lparr>lockedAfter := la, metadataVersionAfter := mv\<rparr>) = (replies, err)
         \<longrightarrow> length replies \<le> length (trs self)
           \<and> (err = None \<longrightarrow> length replies = length (trs self))
           \<and> (t < length replies \<longrightarrow>
                (replies ! t = CommitID (commitVersion self) t mv None
                 \<longleftrightarrow> (\<forall>r \<in> set (transactionResolverMap self ! t).
                        committed (resolution self ! r)
                          ! indexOnResolver (transactionResolverMap self) r t
                          = TransactionCommitted)
                     \<and> (presentAndNonEmpty (store (databaseLockedKey env))
                          \<longrightarrow> isLockAware (trs self ! t))
                     \<and> (presentAndNonEmpty (store (mustContainSystemMutationsKey env))
                          \<longrightarrow> foundSystem env (trs self ! t)))))"
proof -
  let ?self2 = "self1\<lparr>lockedAfter := la, metadataVersionAfter := mv\<rparr>"
  let ?vs = "map (\<lambda>r. committed (resolution self ! r)
                        ! indexOnResolver (transactionResolverMap self) r t)
               (transactionResolverMap self ! t)"
  note d = determineCommittedTransactions_spec [OF assms(1,2,3)]
  have s1: "trs self1 = trs self" "transactionResolverMap self1 = transactionResolverMap self"
    "commitVersion self1 = commitVersion self"
    "locked self1 = presentAndNonEmpty (store (databaseLockedKey env))"
    by (subst d(1), simp)+
  have dist2: "\<forall>rs \<in> set (transactionResolverMap ?self2). distinct rs"
    using assms(3) s1 by simp
  note t = assms(5)
  from d(4) t have c: "ctx_committed self1 ! t =
           (let m = fold min ?vs TransactionCommitted
            in if presentAndNonEmpty (store (mustContainSystemMutationsKey env))
                  \<and> m = TransactionCommitted \<and> \<not> foundSystem env (trs self ! t)
               then TransactionConflict else m)"
    and rng: "\<forall>r \<in> set (transactionResolverMap self ! t).
               r < length (resolution self)
               \<and> indexOnResolver (transactionResolverMap self) r t
                   < length (committed (resolution self ! r))"
    by simp_all
  have le: "\<forall>v \<in> set ?vs. v \<le> TransactionCommitted"
  proof
    fix v assume "v \<in> set ?vs"
    then obtain r where r: "r \<in> set (transactionResolverMap self ! t)"
      and v: "v = committed (resolution self ! r) ! indexOnResolver (transactionResolverMap self) r t"
      by auto
    from rng r have "resolution self ! r \<in> set (resolution self)"
      and "v \<in> set (committed (resolution self ! r))"
      by (simp_all add: v)
    with assms(4) have "v = TransactionConflict \<or> v = TransactionTooOld \<or> v = TransactionCommitted"
      by blast
    then show "v \<le> TransactionCommitted"
      by (auto simp: TransactionConflict_def TransactionTooOld_def TransactionCommitted_def)
  qed
  have all: "fold min ?vs TransactionCommitted = TransactionCommitted
      \<longleftrightarrow> (\<forall>r \<in> set (transactionResolverMap self ! t).
               committed (resolution self ! r) ! indexOnResolver (transactionResolverMap self) r t
                 = TransactionCommitted)"
    using fold_min_top [OF le order_refl] by auto
  have ne: "TransactionConflict \<noteq> TransactionCommitted"
    by (simp add: TransactionConflict_def TransactionCommitted_def)
  have cc: "ctx_committed self1 ! t = TransactionCommitted
      \<longleftrightarrow> (\<forall>r \<in> set (transactionResolverMap self ! t).
               committed (resolution self ! r) ! indexOnResolver (transactionResolverMap self) r t
                 = TransactionCommitted)
          \<and> (presentAndNonEmpty (store (mustContainSystemMutationsKey env))
                 \<longrightarrow> foundSystem env (trs self ! t))"
    unfolding c Let_def using all ne by auto
  have answered: "length replies \<le> length (trs self)
           \<and> (err = None \<longrightarrow> length replies = length (trs self))
           \<and> (t < length replies \<longrightarrow>
                (replies ! t = CommitID (commitVersion self) t mv None
                 \<longleftrightarrow> (\<forall>r \<in> set (transactionResolverMap self ! t).
                        committed (resolution self ! r)
                          ! indexOnResolver (transactionResolverMap self) r t
                          = TransactionCommitted)
                     \<and> (presentAndNonEmpty (store (databaseLockedKey env))
                          \<longrightarrow> isLockAware (trs self ! t))
                     \<and> (presentAndNonEmpty (store (mustContainSystemMutationsKey env))
                          \<longrightarrow> foundSystem env (trs self ! t))))"
    if r: "reply_clients env ?self2 = (replies, err)"
  proof -
    from reply_clients_length [OF r] s1
    have len: "length replies \<le> length (trs self)
        \<and> (err = None \<longrightarrow> length replies = length (trs self))"
      by simp
    have "replies ! t = CommitID (commitVersion self) t mv None
                 \<longleftrightarrow> (\<forall>r \<in> set (transactionResolverMap self ! t).
                        committed (resolution self ! r)
                          ! indexOnResolver (transactionResolverMap self) r t
                          = TransactionCommitted)
                     \<and> (presentAndNonEmpty (store (databaseLockedKey env))
                          \<longrightarrow> isLockAware (trs self ! t))
                     \<and> (presentAndNonEmpty (store (mustContainSystemMutationsKey env))
                          \<longrightarrow> foundSystem env (trs self ! t))"
      if tl: "t < length replies"
    proof -
      from reply_clients_nth [OF r dist2 tl] obtain nt where
        rt: "replyTo env ?self2 nt t = Inr (replies ! t)"
        by auto
      from replyTo_committed [OF rt] s1
      have "replies ! t = CommitID (commitVersion self) t mv None
         \<longleftrightarrow> ctx_committed self1 ! t = TransactionCommitted
              \<and> (\<not> presentAndNonEmpty (store (databaseLockedKey env)) \<or> isLockAware (trs self ! t))"
        by simp
      with cc show ?thesis by blast
    qed
    with len show ?thesis by blast
  qed
  from c answered show ?thesis by blast
qed


theorem commit_reply_iff_witness:
  "determineCommittedTransactions exampleEnv Map.empty plainResolved = Inr plainDetermined
   \<and> nextTr plainResolved = []
   \<and> list_all distinct (transactionResolverMap plainResolved)
   \<and> map committed (resolution plainResolved) = [[TransactionCommitted], []]
   \<and> length (trs plainResolved) = 1
   \<and> reply_clients exampleEnv (plainDetermined\<lparr>lockedAfter := False, metadataVersionAfter := Some [3]\<rparr>)
       = ([CommitID 7 0 (Some [3]) None], None)
   \<and> ctx_committed plainDetermined ! 0 = TransactionCommitted
   \<and> transactionResolverMap plainResolved ! 0 = [0]
   \<and> committed (resolution plainResolved ! 0) ! indexOnResolver (transactionResolverMap plainResolved) 0 0
       = TransactionCommitted"
proof -
  have "\<not> isl (determineCommittedTransactions exampleEnv Map.empty plainResolved)"
    by code_simp
  then have d: "determineCommittedTransactions exampleEnv Map.empty plainResolved = Inr plainDetermined"
    unfolding plainDetermined_def
    by (cases "determineCommittedTransactions exampleEnv Map.empty plainResolved") auto
  have f: "nextTr plainResolved = []"
    by code_simp
  have ds: "\<forall>rs \<in> set (transactionResolverMap plainResolved). distinct rs"
    by code_simp
  have v: "\<forall>rep \<in> set (resolution plainResolved). \<forall>v \<in> set (committed rep).
          v = TransactionConflict \<or> v = TransactionTooOld \<or> v = TransactionCommitted"
    by code_simp
  have l: "length (trs plainResolved) = 1"
    by code_simp
  then have t: "0 < length (trs plainResolved)"
    by simp
  have r: "reply_clients exampleEnv (plainDetermined\<lparr>lockedAfter := False, metadataVersionAfter := Some [3]\<rparr>)
       = ([CommitID 7 0 (Some [3]) None], None)"
    by code_simp
  have cv: "commitVersion plainResolved = 7"
    by code_simp
  have fm: "fold min (map (\<lambda>r. committed (resolution plainResolved ! r)
                ! indexOnResolver (transactionResolverMap plainResolved) r 0)
              (transactionResolverMap plainResolved ! 0)) TransactionCommitted = TransactionCommitted"
    by code_simp
  have st: "\<not> presentAndNonEmpty (Map.empty (mustContainSystemMutationsKey exampleEnv))"
    "\<not> presentAndNonEmpty (Map.empty (databaseLockedKey exampleEnv))"
    by (simp_all add: presentAndNonEmpty_def)
  have la: "list_all distinct (transactionResolverMap plainResolved)"
    by code_simp
  have rs: "map committed (resolution plainResolved) = [[TransactionCommitted], []]"
    by code_simp
  have row: "transactionResolverMap plainResolved ! 0 = [0]"
    by code_simp
  from commit_reply_iff [OF d f ds v t, where la = False and mv = "Some [3]"
      and replies = "[CommitID 7 0 (Some [3]) None]" and err = None] d f r la rs row l
  show ?thesis
    unfolding cv fm by (simp add: st)
qed

text \<open>
  A transaction that gets no answer: on a locked database the first transaction of
  \<open>mixedBatch\<close> is committed by its resolvers, is not lock-aware and asked for its
  conflicting keys, of which there are none, so \<^verbatim>\<open>reply\<close> fails its assertion there;
  the second transaction, committed and lock-aware, is never reached.
\<close>

lemma later_transaction_unanswered:
  "\<not> isl (getResolution exampleEnv 2 5 alwaysCommitted mixedBatch)
   \<and> \<not> isl (determineCommittedTransactions exampleEnv lockedStore mixedResolved)
   \<and> ctx_committed mixedDetermined = [TransactionCommitted, TransactionCommitted]
   \<and> locked mixedDetermined
   \<and> isLockAware (trs mixedDetermined ! 1)
   \<and> reply_clients exampleEnv mixedDetermined = ([], Some assertion_failed)"
  by code_simp
subsection \<open>C10: transactions that are sent to no resolver\<close>

text \<open>
  C10, as stated: a transaction without read-conflict ranges, write-conflict ranges and
  metadata mutations is sent to no resolver. The second transaction of \<open>stampedBatch\<close>
  has neither ranges nor a metadata mutation, before and after the rewrite, but it sets a
  versionstamped key: the rewrite gives it a write-conflict range on the resulting key,
  and with it the transaction goes to resolver 0, which decides on it.
\<close>

theorem stamped_key_transaction_is_resolved:
  "read_conflict_ranges (transaction (trs stampedBatch ! 1)) = []
   \<and> write_conflict_ranges (transaction (trs stampedBatch ! 1)) = []
   \<and> \<not> list_ex (isMetadataMutation exampleEnv) (mutations (transaction (trs stampedBatch ! 1)))
   \<and> \<not> isl (getResolution exampleEnv 2 5 alwaysCommitted stampedBatch)
   \<and> \<not> list_ex (isMetadataMutation exampleEnv)
         (mutations (transaction
            (trs (snd (projr (getResolution exampleEnv 2 5 alwaysCommitted stampedBatch))) ! 1)))
   \<and> transactionResolverMap (snd (projr (getResolution exampleEnv 2 5 alwaysCommitted stampedBatch))) ! 1
       = [0]
   \<and> length (req_transactions
         (fst (projr (getResolution exampleEnv 2 5 alwaysCommitted stampedBatch)) ! 0)) = 1"
  by code_simp

text \<open>
  C10, amended: take a batch with a fresh \<^verbatim>\<open>nextTr\<close> through \<^verbatim>\<open>getResolution\<close> and
  \<^verbatim>\<open>determineCommittedTransactions\<close>. A transaction \<open>t\<close> of the batch that was
  submitted without read-conflict ranges and without write-conflict ranges, that sets no
  versionstamped key, and none of whose mutations is a metadata mutation once its
  versionstamped values are rewritten, has an empty row in \<^verbatim>\<open>transactionResolverMap\<close>.
  Its commit status is committed, unless the must-contain-system-mutations key is set and
  the transaction writes no key at or beyond the end of the non-metadata system keys,
  which makes it a conflict. \<^verbatim>\<open>reply\<close> answers the transactions in order and stops at
  the first failure, so the transaction may get no answer; when \<^verbatim>\<open>reply\<close> ends without
  an error every transaction is answered. If the transaction is answered, the answer is
  the committed reply exactly when the database was unlocked at commit time or the
  transaction is lock-aware, and that demotion did not apply.
\<close>

theorem unsent_transaction_commits:
  assumes g: "getResolution env n lastV resolve self = Inr (reqs, self1)"
    and f: "nextTr self = []"
    and d: "determineCommittedTransactions env store self1 = Inr self2"
    and t0: "t < length (trs self)"
    and nr: "read_conflict_ranges (transaction (trs self ! t)) = []"
    and nw: "write_conflict_ranges (transaction (trs self ! t)) = []"
    and nm: "\<forall>m \<in> set (mutations (transaction (trs self ! t))).
               mutation_type m \<noteq> SetVersionstampedKey
               \<and> \<not> isMetadataMutation env
                     (if mutation_type m = SetVersionstampedValue
                      then transformVersionstampMutation env m Param2 (commitVersion self) (int t)
                      else m)"
  shows "transactionResolverMap self1 ! t = []
    \<and> ctx_committed self2 ! t =
        (if presentAndNonEmpty (store (mustContainSystemMutationsKey env))
            \<and> \<not> foundSystem env (trs self1 ! t)
         then TransactionConflict else TransactionCommitted)
    \<and> (reply_clients env (self2\<lparr>lockedAfter := la, metadataVersionAfter := mv\<rparr>) = (replies, err)
         \<longrightarrow> length replies \<le> length (trs self)
           \<and> (err = None \<longrightarrow> length replies = length (trs self))
           \<and> (t < length replies \<longrightarrow>
                (replies ! t = CommitID (commitVersion self) t mv None
                 \<longleftrightarrow> (presentAndNonEmpty (store (databaseLockedKey env))
                        \<longrightarrow> isLockAware (trs self ! t))
                     \<and> (presentAndNonEmpty (store (mustContainSystemMutationsKey env))
                          \<longrightarrow> foundSystem env (trs self1 ! t)))))"
proof -
  let ?self3 = "self2\<lparr>lockedAfter := la, metadataVersionAfter := mv\<rparr>"
  from g obtain b where a: "addTransactions env 0 (trs self)
       (ResolutionRequestBuilder_init n (commitVersion self) (prevVersion self) lastV)
       = Inr (b, trs self1)"
    and l: "length (trs self1) = length (trs self)"
    and tm: "transactionResolverMap self1 = transactionResolverMap b"
    and nt: "nextTr self1 = nextTr self" and cv: "commitVersion self1 = commitVersion self"
    and dist: "\<forall>rs \<in> set (transactionResolverMap self1). distinct rs"
    by (rule getResolution_built)
  from f nt have f1: "nextTr self1 = []" by simp
  note ds = determineCommittedTransactions_spec [OF d f1 dist]
  have s2: "trs self2 = trs self1" "transactionResolverMap self2 = transactionResolverMap self1"
    "commitVersion self2 = commitVersion self1"
    "locked self2 = presentAndNonEmpty (store (databaseLockedKey env))"
    by (subst ds(1), simp)+
  have dist3: "\<forall>rs \<in> set (transactionResolverMap ?self3). distinct rs"
    using dist s2 by simp
  from t0 l have t1: "t < length (trs self1)" by simp
  from addTransactions_rewrites [OF a init_versions] t0
  have mu: "mutations (transaction (trs self1 ! t)) =
           map (\<lambda>m. if mutation_type m = SetVersionstampedKey
                     then transformVersionstampMutation env m Param1 (commitVersion self) (int t)
                     else if mutation_type m = SetVersionstampedValue
                     then transformVersionstampMutation env m Param2 (commitVersion self) (int t)
                     else m)
             (mutations (transaction (trs self ! t)))"
    and wc: "write_conflict_ranges (transaction (trs self1 ! t)) =
           write_conflict_ranges (transaction (trs self ! t))
           @ map (\<lambda>m. singleKeyRange env
                   (param1 (transformVersionstampMutation env m Param1 (commitVersion self) (int t))))
               (filter (\<lambda>m. mutation_type m = SetVersionstampedKey)
                  (mutations (transaction (trs self ! t))))"
    by simp_all
  from nm have nofilter: "filter (\<lambda>m. mutation_type m = SetVersionstampedKey)
                  (mutations (transaction (trs self ! t))) = []"
    by (simp add: filter_empty_conv)
  from wc nw nofilter have w1: "write_conflict_ranges (transaction (trs self1 ! t)) = []"
    by simp
  from nm have m1: "\<not> list_ex (isMetadataMutation env) (mutations (transaction (trs self1 ! t)))"
    unfolding mu by (auto simp: list_ex_iff)
  from addTransactions_flag [OF a] obtain rows where
    rows: "transactionResolverMap b
             = transactionResolverMap
                 (ResolutionRequestBuilder_init n (commitVersion self) (prevVersion self) lastV) @ rows"
    and per: "\<forall>k < length (trs self).
         read_conflict_ranges (transaction (trs self1 ! k))
           = withLockedRange env (trs self ! k)
               (list_ex (isMetadataMutation env) (mutations (transaction (trs self1 ! k))))
         \<and> report_conflicting_keys (transaction (trs self1 ! k))
             = report_conflicting_keys (transaction (trs self ! k))
         \<and> isLockAware (trs self1 ! k) = isLockAware (trs self ! k)
         \<and> (read_conflict_ranges (transaction (trs self1 ! k)) = []
             \<and> write_conflict_ranges (transaction (trs self1 ! k)) = []
             \<and> \<not> list_ex (isMetadataMutation env) (mutations (transaction (trs self1 ! k)))
             \<longrightarrow> rows ! k = [])"
    by blast
  from rows have rows': "transactionResolverMap self1 = rows"
    by (simp add: tm ResolutionRequestBuilder_init_def)
  from per t0 have r1: "read_conflict_ranges (transaction (trs self1 ! t))
           = withLockedRange env (trs self ! t)
               (list_ex (isMetadataMutation env) (mutations (transaction (trs self1 ! t))))"
    and lk: "isLockAware (trs self1 ! t) = isLockAware (trs self ! t)"
    and pl: "read_conflict_ranges (transaction (trs self1 ! t)) = []
             \<and> write_conflict_ranges (transaction (trs self1 ! t)) = []
             \<and> \<not> list_ex (isMetadataMutation env) (mutations (transaction (trs self1 ! t)))
             \<longrightarrow> rows ! t = []"
    by blast+
  from r1 m1 nr have "read_conflict_ranges (transaction (trs self1 ! t)) = []"
    by (simp add: withLockedRange_def)
  with pl w1 m1 rows' have row: "transactionResolverMap self1 ! t = []" by simp
  from ds(4) t1 have "ctx_committed self2 ! t =
             (let m = fold min (map (\<lambda>r. committed (resolution self1 ! r)
                                           ! indexOnResolver (transactionResolverMap self1) r t)
                                  (transactionResolverMap self1 ! t)) TransactionCommitted
              in if presentAndNonEmpty (store (mustContainSystemMutationsKey env))
                    \<and> m = TransactionCommitted \<and> \<not> foundSystem env (trs self1 ! t)
                 then TransactionConflict else m)"
    by simp
  then have c: "ctx_committed self2 ! t =
        (if presentAndNonEmpty (store (mustContainSystemMutationsKey env))
            \<and> \<not> foundSystem env (trs self1 ! t)
         then TransactionConflict else TransactionCommitted)"
    by (simp add: row)
  have ne: "TransactionConflict \<noteq> TransactionCommitted"
    by (simp add: TransactionConflict_def TransactionCommitted_def)
  have answered: "length replies \<le> length (trs self)
           \<and> (err = None \<longrightarrow> length replies = length (trs self))
           \<and> (t < length replies \<longrightarrow>
                (replies ! t = CommitID (commitVersion self) t mv None
                 \<longleftrightarrow> (presentAndNonEmpty (store (databaseLockedKey env))
                        \<longrightarrow> isLockAware (trs self ! t))
                     \<and> (presentAndNonEmpty (store (mustContainSystemMutationsKey env))
                          \<longrightarrow> foundSystem env (trs self1 ! t))))"
    if r: "reply_clients env ?self3 = (replies, err)"
  proof -
    from reply_clients_length [OF r] s2 l
    have len: "length replies \<le> length (trs self)
        \<and> (err = None \<longrightarrow> length replies = length (trs self))"
      by simp
    have "replies ! t = CommitID (commitVersion self) t mv None
                 \<longleftrightarrow> (presentAndNonEmpty (store (databaseLockedKey env))
                        \<longrightarrow> isLockAware (trs self ! t))
                     \<and> (presentAndNonEmpty (store (mustContainSystemMutationsKey env))
                          \<longrightarrow> foundSystem env (trs self1 ! t))"
      if tl: "t < length replies"
    proof -
      from reply_clients_nth [OF r dist3 tl] obtain nt' where
        rt: "replyTo env ?self3 nt' t = Inr (replies ! t)"
        by auto
      from replyTo_committed [OF rt] s2 cv lk
      have "replies ! t = CommitID (commitVersion self) t mv None
         \<longleftrightarrow> ctx_committed self2 ! t = TransactionCommitted
              \<and> (\<not> presentAndNonEmpty (store (databaseLockedKey env)) \<or> isLockAware (trs self ! t))"
        by simp
      with c ne show ?thesis by auto
    qed
    with len show ?thesis by blast
  qed
  from row c answered show ?thesis by blast
qed


theorem unsent_transaction_commits_witness:
  "\<not> isl (getResolution exampleEnv 2 5 alwaysCommitted blindBatch)
   \<and> nextTr blindBatch = []
   \<and> determineCommittedTransactions exampleEnv Map.empty blindResolved = Inr blindDetermined
   \<and> length (trs blindBatch) = 1
   \<and> reply_clients exampleEnv (blindDetermined\<lparr>lockedAfter := False, metadataVersionAfter := Some [3]\<rparr>)
       = ([CommitID 7 0 (Some [3]) None], None)
   \<and> read_conflict_ranges (transaction (trs blindBatch ! 0)) = []
   \<and> write_conflict_ranges (transaction (trs blindBatch ! 0)) = []
   \<and> transactionResolverMap blindResolved ! 0 = []
   \<and> ctx_committed blindDetermined ! 0 = TransactionCommitted"
proof -
  have ok: "\<not> isl (getResolution exampleEnv 2 5 alwaysCommitted blindBatch)"
    by code_simp
  then have g: "getResolution exampleEnv 2 5 alwaysCommitted blindBatch
      = Inr (fst (projr (getResolution exampleEnv 2 5 alwaysCommitted blindBatch)), blindResolved)"
    unfolding blindResolved_def
    by (cases "getResolution exampleEnv 2 5 alwaysCommitted blindBatch") auto
  have f: "nextTr blindBatch = []"
    by code_simp
  have "\<not> isl (determineCommittedTransactions exampleEnv Map.empty blindResolved)"
    by code_simp
  then have d: "determineCommittedTransactions exampleEnv Map.empty blindResolved = Inr blindDetermined"
    unfolding blindDetermined_def
    by (cases "determineCommittedTransactions exampleEnv Map.empty blindResolved") auto
  have l: "length (trs blindBatch) = 1"
    by code_simp
  then have t: "0 < length (trs blindBatch)"
    by simp
  have r: "reply_clients exampleEnv (blindDetermined\<lparr>lockedAfter := False, metadataVersionAfter := Some [3]\<rparr>)
       = ([CommitID 7 0 (Some [3]) None], None)"
    by code_simp
  have nr: "read_conflict_ranges (transaction (trs blindBatch ! 0)) = []"
    by code_simp
  have nw: "write_conflict_ranges (transaction (trs blindBatch ! 0)) = []"
    by code_simp
  have nm: "\<forall>m \<in> set (mutations (transaction (trs blindBatch ! 0))).
               mutation_type m \<noteq> SetVersionstampedKey
               \<and> \<not> isMetadataMutation exampleEnv
                     (if mutation_type m = SetVersionstampedValue
                      then transformVersionstampMutation exampleEnv m Param2
                             (commitVersion blindBatch) (int 0)
                      else m)"
    by code_simp
  have st: "\<not> presentAndNonEmpty (Map.empty (mustContainSystemMutationsKey exampleEnv))"
    by (simp add: presentAndNonEmpty_def)
  from unsent_transaction_commits [OF g f d t nr nw nm] ok f d r nr nw l
  show ?thesis
    by (simp add: st)
qed
subsection \<open>C4: the conflicting read-conflict ranges of a reply\<close>

text \<open>
  C4, as stated: every index of a conflict reply is the position of a flagged
  read-conflict range in the list the client submitted, and no index is emitted twice.
  The only transaction of \<open>wideBatch\<close> has one read-conflict range, which lies across
  both resolvers; each resolver receives it as its range 0 and flags it. The loop of
  \<^verbatim>\<open>reply\<close> appends the remapped index once for each resolver, so the reply carries
  the index 0 twice.
\<close>

theorem twice_flagged_range_reported_twice:
  "\<not> isl (getResolution exampleEnv 2 5 flagFirst wideBatch)
   \<and> read_conflict_ranges (transaction (trs wideBatch ! 0))
       = [\<lparr>range_begin = [100], range_end = [200]\<rparr>]
   \<and> report_conflicting_keys (transaction (trs wideBatch ! 0))
   \<and> transactionResolverMap wideResolved = [[0, 1]]
   \<and> txReadConflictRangeIndexMap wideResolved = [[[0], [0]]]
   \<and> \<not> isl (determineCommittedTransactions exampleEnv Map.empty wideResolved)
   \<and> ctx_committed wideDetermined = [TransactionConflict]
   \<and> reply_clients exampleEnv wideDetermined = ([CommitID (- 1) 0 None (Some [0, 0])], None)"
  by code_simp

text \<open>
  C4, amended: take a batch with a fresh \<^verbatim>\<open>nextTr\<close> through \<^verbatim>\<open>getResolution\<close>,
  \<^verbatim>\<open>determineCommittedTransactions\<close> and \<^verbatim>\<open>reply\<close>, and let the reply to transaction
  \<open>t\<close> carry conflicting indices. Then the transaction asked for them. Its list of
  read-conflict ranges at that point is the submitted list, followed by the
  database-locked range if the transaction has a metadata mutation and is not
  lock-aware. The indices of the reply are, for the resolvers of
  \<^verbatim>\<open>transactionResolverMap[t]\<close> in order, the ranges that the resolver flagged for the
  transaction at its position in that resolver's request, each remapped through
  \<^verbatim>\<open>txReadConflictRangeIndexMap[t][r]\<close>; an index occurs once for every resolver and
  flag that maps to it. Each remapped index is a position in the transaction's list, and
  the range at that position is the range that the resolver received at the flagged
  position.
\<close>

theorem conflicting_indices_roundtrip:
  assumes g: "getResolution env n lastV resolve self = Inr (reqs, self1)"
    and f: "nextTr self = []"
    and d: "determineCommittedTransactions env store self1 = Inr self2"
    and r: "reply_clients env (self2\<lparr>lockedAfter := la, metadataVersionAfter := mv\<rparr>) = (replies, err)"
    and t: "t < length replies"
    and rep: "replies ! t = CommitID v k mvo (Some idxs)"
  shows "report_conflicting_keys (transaction (trs self ! t))
    \<and> read_conflict_ranges (transaction (trs self1 ! t))
        = withLockedRange env (trs self ! t)
            (list_ex (isMetadataMutation env) (mutations (transaction (trs self1 ! t))))
    \<and> idxs = concat (map (\<lambda>r. map ((!) (txReadConflictRangeIndexMap self1 ! t ! r))
                                 (cKRsOf (resolve r (reqs ! r))
                                    (indexOnResolver (transactionResolverMap self1) r t)))
                        (transactionResolverMap self1 ! t))
    \<and> (\<forall>r \<in> set (transactionResolverMap self1 ! t).
          \<forall>j \<in> set (cKRsOf (resolve r (reqs ! r))
                       (indexOnResolver (transactionResolverMap self1) r t)).
            r < length reqs
            \<and> indexOnResolver (transactionResolverMap self1) r t < length (req_transactions (reqs ! r))
            \<and> j < length (read_conflict_ranges
                   (req_transactions (reqs ! r) ! indexOnResolver (transactionResolverMap self1) r t))
            \<and> txReadConflictRangeIndexMap self1 ! t ! r ! j
                 < length (read_conflict_ranges (transaction (trs self1 ! t)))
            \<and> read_conflict_ranges
                 (req_transactions (reqs ! r) ! indexOnResolver (transactionResolverMap self1) r t) ! j
               = read_conflict_ranges (transaction (trs self1 ! t))
                   ! (txReadConflictRangeIndexMap self1 ! t ! r ! j))"
proof -
  let ?self3 = "self2\<lparr>lockedAfter := la, metadataVersionAfter := mv\<rparr>"
  let ?tm = "transactionResolverMap self1"
  let ?xm = "txReadConflictRangeIndexMap self1"
  from g obtain b where a: "addTransactions env 0 (trs self)
       (ResolutionRequestBuilder_init n (commitVersion self) (prevVersion self) lastV)
       = Inr (b, trs self1)"
    and bt: "built b (trs self1)" and rq: "requests b = reqs" and ln: "length reqs = n"
    and l: "length (trs self1) = length (trs self)"
    and tm: "?tm = transactionResolverMap b"
    and xm: "?xm = txReadConflictRangeIndexMap b"
    and res: "resolution self1 = map (\<lambda>r. resolve r (reqs ! r)) [0..<n]"
    and nt: "nextTr self1 = nextTr self"
    and dist: "\<forall>rs \<in> set ?tm. distinct rs"
    by (rule getResolution_built)
  from f nt have f1: "nextTr self1 = []" by simp
  note ds = determineCommittedTransactions_spec [OF d f1 dist]
  have s2: "trs self2 = trs self1" "transactionResolverMap self2 = ?tm"
    "txReadConflictRangeIndexMap self2 = ?xm" "resolution self2 = resolution self1"
    by (subst ds(1), simp)+
  have dist3: "\<forall>rs \<in> set (transactionResolverMap ?self3). distinct rs"
    using dist s2 by simp
  from reply_clients_nth [OF r dist3 t] obtain nt' where
    lnt: "length nt' = length (nextTr self2)"
    and idx: "\<forall>r < length nt'. nt' ! r = indexOnResolver ?tm r t"
    and rt: "replyTo env ?self3 nt' t = Inr (replies ! t)" and t1: "t < length (trs self1)"
    using s2 by auto
  from t1 l have t0: "t < length (trs self)" by simp
  note rc = replyTo_conflicting [OF rt [unfolded rep]]
  from rc(3) have rk1: "report_conflicting_keys (transaction (trs self1 ! t))"
    using s2 by simp
  from addTransactions_flag [OF a] t0
  have rcr: "read_conflict_ranges (transaction (trs self1 ! t))
           = withLockedRange env (trs self ! t)
               (list_ex (isMetadataMutation env) (mutations (transaction (trs self1 ! t))))"
    and rk: "report_conflicting_keys (transaction (trs self1 ! t))
             = report_conflicting_keys (transaction (trs self ! t))"
    by auto
  from collectConflicting_spec [OF rc(1)] s2
  have e0: "idxs = concat (map (\<lambda>r. map ((!) (?xm ! t ! r))
                                 (cKRsOf (resolution self1 ! r) (nt' ! r))) (?tm ! t))"
    and bd: "\<forall>r \<in> set (?tm ! t). r < length (resolution self1) \<and> r < length nt'
          \<and> (\<forall>j \<in> set (cKRsOf (resolution self1 ! r) (nt' ! r)). j < length (?xm ! t ! r))"
    by simp_all
  have loc: "resolution self1 ! r = resolve r (reqs ! r) \<and> nt' ! r = indexOnResolver ?tm r t
      \<and> r < n"
    if "r \<in> set (?tm ! t)" for r
  proof -
    from bd that have "r < length (resolution self1)" and "r < length nt'" by auto
    with res idx show ?thesis by simp
  qed
  have e: "idxs = concat (map (\<lambda>r. map ((!) (?xm ! t ! r))
                                 (cKRsOf (resolve r (reqs ! r)) (indexOnResolver ?tm r t)))
                        (?tm ! t))"
    unfolding e0 by (rule arg_cong [where f = concat], rule map_cong) (simp_all add: loc)
  from bt t1 have lt: "length (transactionResolverMap b) = length (trs self1)"
    and cnt: "\<forall>r < length (requests b).
          length (req_transactions (requests b ! r))
            = indexOnResolver (transactionResolverMap b) r (length (trs self1))"
    and row: "\<forall>r \<in> set (transactionResolverMap b ! t).
                r < length (requests b)
                \<and> read_conflict_ranges
                      (req_transactions (requests b ! r) ! indexOnResolver (transactionResolverMap b) r t)
                    = map ((!) (read_conflict_ranges (transaction (trs self1 ! t))))
                        (txReadConflictRangeIndexMap b ! t ! r)
                \<and> (\<forall>j \<in> set (txReadConflictRangeIndexMap b ! t ! r).
                      j < length (read_conflict_ranges (transaction (trs self1 ! t))))"
    by (simp_all add: built_def)
  have round: "r < length reqs
            \<and> indexOnResolver ?tm r t < length (req_transactions (reqs ! r))
            \<and> j < length (read_conflict_ranges
                   (req_transactions (reqs ! r) ! indexOnResolver ?tm r t))
            \<and> ?xm ! t ! r ! j < length (read_conflict_ranges (transaction (trs self1 ! t)))
            \<and> read_conflict_ranges (req_transactions (reqs ! r) ! indexOnResolver ?tm r t) ! j
               = read_conflict_ranges (transaction (trs self1 ! t)) ! (?xm ! t ! r ! j)"
    if rr: "r \<in> set (?tm ! t)"
      and jj: "j \<in> set (cKRsOf (resolve r (reqs ! r)) (indexOnResolver ?tm r t))" for r j
  proof -
    from rr row have r1: "r < length reqs"
      and m: "read_conflict_ranges (req_transactions (reqs ! r) ! indexOnResolver ?tm r t)
                = map ((!) (read_conflict_ranges (transaction (trs self1 ! t)))) (?xm ! t ! r)"
      and b2: "\<forall>j \<in> set (?xm ! t ! r).
                  j < length (read_conflict_ranges (transaction (trs self1 ! t)))"
      unfolding tm xm rq [symmetric] by auto
    from bd rr jj loc [OF rr] have j: "j < length (?xm ! t ! r)" by auto
    then have "?xm ! t ! r ! j \<in> set (?xm ! t ! r)" by simp
    with b2 have i: "?xm ! t ! r ! j < length (read_conflict_ranges (transaction (trs self1 ! t)))"
      by blast
    have "indexOnResolver ?tm r t < indexOnResolver ?tm r (length (trs self1))"
      using t1 lt rr unfolding tm by (intro indexOnResolver_less) simp_all
    with cnt r1 have p: "indexOnResolver ?tm r t < length (req_transactions (reqs ! r))"
      unfolding tm rq [symmetric] by simp
    from r1 p j i show ?thesis unfolding m by simp
  qed
  from rk1 rk rcr e round show ?thesis by blast
qed

theorem conflicting_indices_roundtrip_witness:
  "\<not> isl (getResolution exampleEnv 2 5 flagFirst wideBatch)
   \<and> nextTr wideBatch = []
   \<and> determineCommittedTransactions exampleEnv Map.empty wideResolved = Inr wideDetermined
   \<and> reply_clients exampleEnv (wideDetermined\<lparr>lockedAfter := False, metadataVersionAfter := None\<rparr>)
       = ([CommitID (- 1) 0 None (Some [0, 0])], None)
   \<and> transactionResolverMap wideResolved ! 0 = [0, 1]
   \<and> cKRsOf (flagFirst 1 (wideRequests ! 1)) (indexOnResolver (transactionResolverMap wideResolved) 1 0)
       = [0]
   \<and> txReadConflictRangeIndexMap wideResolved ! 0 ! 1 ! 0 = 0
   \<and> read_conflict_ranges
         (req_transactions (wideRequests ! 1) ! indexOnResolver (transactionResolverMap wideResolved) 1 0) ! 0
       = read_conflict_ranges (transaction (trs wideResolved ! 0)) ! 0"
proof -
  have ok: "\<not> isl (getResolution exampleEnv 2 5 flagFirst wideBatch)"
    by code_simp
  then have g: "getResolution exampleEnv 2 5 flagFirst wideBatch = Inr (wideRequests, wideResolved)"
    unfolding wideRequests_def wideResolved_def
    by (cases "getResolution exampleEnv 2 5 flagFirst wideBatch") auto
  have f: "nextTr wideBatch = []"
    by code_simp
  have "\<not> isl (determineCommittedTransactions exampleEnv Map.empty wideResolved)"
    by code_simp
  then have d: "determineCommittedTransactions exampleEnv Map.empty wideResolved = Inr wideDetermined"
    unfolding wideDetermined_def
    by (cases "determineCommittedTransactions exampleEnv Map.empty wideResolved") auto
  have r: "reply_clients exampleEnv (wideDetermined\<lparr>lockedAfter := False, metadataVersionAfter := None\<rparr>)
       = ([CommitID (- 1) 0 None (Some [0, 0])], None)"
    by code_simp
  have t: "0 < length [CommitID (- 1) 0 None (Some [0, 0])]"
    by simp
  have rep: "[CommitID (- 1) 0 None (Some [0, 0])] ! 0 = CommitID (- 1) 0 None (Some [0, 0])"
    by simp
  have row: "transactionResolverMap wideResolved ! 0 = [0, 1]"
    by code_simp
  have ck: "cKRsOf (flagFirst 1 (wideRequests ! 1))
              (indexOnResolver (transactionResolverMap wideResolved) 1 0) = [0]"
    by code_simp
  have xm: "txReadConflictRangeIndexMap wideResolved ! 0 ! 1 ! 0 = 0"
    by code_simp
  have m1: "1 \<in> set (transactionResolverMap wideResolved ! 0)"
    unfolding row by simp
  have m2: "0 \<in> set (cKRsOf (flagFirst 1 (wideRequests ! 1))
              (indexOnResolver (transactionResolverMap wideResolved) 1 0))"
    unfolding ck by simp
  note c = conflicting_indices_roundtrip [OF g f d r t rep,
      THEN conjunct2, THEN conjunct2, THEN conjunct2, rule_format, OF m1 m2]
  from c have "read_conflict_ranges
         (req_transactions (wideRequests ! 1) ! indexOnResolver (transactionResolverMap wideResolved) 1 0) ! 0
       = read_conflict_ranges (transaction (trs wideResolved ! 0))
           ! (txReadConflictRangeIndexMap wideResolved ! 0 ! 1 ! 0)"
    by blast
  then have "read_conflict_ranges
         (req_transactions (wideRequests ! 1) ! indexOnResolver (transactionResolverMap wideResolved) 1 0) ! 0
       = read_conflict_ranges (transaction (trs wideResolved ! 0)) ! 0"
    unfolding xm .
  with ok f d r row ck xm show ?thesis by blast
qed

end
